theory Spec2Isabelle
  imports Complex_Main
begin

section \<open>Data model (src/types.ts)\<close>

text \<open>
  Instants are JavaScript millisecond timestamps (\<open>Date.now()\<close>), modelled as \<open>int\<close>.
  The stage of an article is created as 0 (App.tsx, \<open>handleReviewConfirm\<close>) and is only
  ever replaced by \<open>stage + 1\<close> (\<open>updateArticleProgress\<close>), so it is a \<open>nat\<close>.
  Numbers that come out of \<open>parseFloat\<close>/\<open>parseInt\<close> are \<open>jsnum\<close>: a finite double
  (kept as the rational number it denotes), \<open>NaN\<close>, or an infinity.
\<close>

datatype jsnum = NaN | PosInf | NegInf | Fin rat

text \<open>The parser's synthetic id \<open>seg-${index}-${Date.now()}\<close>: line index and stamp.\<close>

datatype seg_id = SegId nat int

record segment =
  seg_ident :: seg_id
  seg_text :: string
  seg_translation :: string
  seg_start :: jsnum
  seg_end :: jsnum

record article =
  article_id :: string
  title :: string
  createdAt :: int
  lastPracticed :: "int option"
  nextReview :: int
  stage :: nat
  segments :: "segment list"
  currentSegmentIndex :: nat
  audioBlob :: "string option"

section \<open>Persistent store and scheduler (src/services/storageService.ts)\<close>

text \<open>
  The articles object store is a map from the key path \<open>id\<close> to the stored record.
  \<open>getArticleById\<close> hands out a copy, \<open>saveArticle\<close> is \<open>store.put\<close>. The log
  \<open>calls\<close> records, in order, every invocation of \<open>updateArticleProgress\<close> and of
  \<open>calculateNextReview\<close>.
\<close>

datatype call = UpdateArticleProgress string | CalculateNextReview nat

record world =
  db :: "string \<rightharpoonup> article"
  calls :: "call list"

definition getArticleById :: "world \<Rightarrow> string \<Rightarrow> article option" where
  "getArticleById w ident = db w ident"

definition saveArticle :: "article \<Rightarrow> world \<Rightarrow> world" where
  "saveArticle a w = w\<lparr>db := (db w)(article_id a \<mapsto> a)\<rparr>"

definition SRS_INTERVALS :: "nat list" where
  "SRS_INTERVALS = [1, 3, 5, 7, 14, 30, 60, 90, 120, 150]"

definition oneDay :: int where
  "oneDay = 24 * 60 * 60 * 1000"

definition oneYear :: int where
  "oneYear = 365 * 24 * 60 * 60 * 1000"

record review =
  nextDate :: int
  nextStage :: nat
  isFinished :: bool

text \<open>\<open>now\<close> is the single \<open>Date.now()\<close> read at the top of the function.\<close>

definition calculateNextReview :: "int \<Rightarrow> nat \<Rightarrow> review" where
  "calculateNextReview now currentStage =
     (let daysToAdd =
            (if currentStage < length SRS_INTERVALS then SRS_INTERVALS ! currentStage
             else 30)
      in \<lparr>nextDate = now + int daysToAdd * oneDay,
          nextStage = currentStage + 1,
          isFinished = (currentStage \<ge> length SRS_INTERVALS + 12)\<rparr>)"

text \<open>
  \<open>updateArticleProgress\<close> reads the clock three times on either path. \<open>t1\<close> is the read
  in the dormancy test. On the dormant path \<open>t2\<close> stamps \<open>lastPracticed\<close> and \<open>t3\<close> is the
  base of \<open>nextReview\<close>; on the normal path \<open>t2\<close> is the read inside
  \<open>calculateNextReview\<close> (called first) and \<open>t3\<close> stamps \<open>lastPracticed\<close>.
\<close>

definition updateArticleProgress :: "int \<Rightarrow> int \<Rightarrow> int \<Rightarrow> string \<Rightarrow> world \<Rightarrow> world" where
  "updateArticleProgress t1 t2 t3 ident w0 =
     (let w = w0\<lparr>calls := calls w0 @ [UpdateArticleProgress ident]\<rparr> in
      case getArticleById w ident of
        None \<Rightarrow> w
      | Some a \<Rightarrow>
          if t1 - createdAt a > oneYear then
            saveArticle (a\<lparr>lastPracticed := Some t2, nextReview := t3 + oneYear * 10\<rparr>) w
          else
            (let r = calculateNextReview t2 (stage a);
                 w' = w\<lparr>calls := calls w @ [CalculateNextReview (stage a)]\<rparr>
             in saveArticle
                  (a\<lparr>lastPracticed := Some t3, nextReview := nextDate r, stage := nextStage r\<rparr>)
                  w'))"

section \<open>Practice session: progress (src/components/StepPractice.tsx, src/App.tsx)\<close>

datatype feedback = Neutral | Correct | Incorrect

text \<open>
  What the popover holds after a lookup: the word, the sentence it came from, and the reply
  of the lookup service (translation, IPA, definition and examples, kept as one value).
\<close>

record lookup_data =
  ld_word :: string
  ld_originalSentence :: string
  ld_reply :: string

record practice =
  articleId :: "string option"
  props_segments :: "segment list"
  currentIndex :: nat
  userInput :: string
  feedback_state :: feedback
  selectedWord :: "string option"
  lookupData :: "lookup_data option"
  isLookingUp :: bool
  savedWords :: "string set"

text \<open>\<open>setCurrentIndex\<close> together with the effect that runs on every change of \<open>currentIndex\<close>.\<close>

definition setCurrentIndex :: "nat \<Rightarrow> practice \<Rightarrow> practice" where
  "setCurrentIndex n p =
     p\<lparr>currentIndex := n, userInput := [], feedback_state := Neutral,
       selectedWord := None, lookupData := None, savedWords := {}\<rparr>"

definition saveProgress :: "int \<Rightarrow> string option \<Rightarrow> nat \<Rightarrow> world \<Rightarrow> world" where
  "saveProgress t aid nextIndex w =
     (case aid of
        None \<Rightarrow> w
      | Some ident \<Rightarrow>
          (case getArticleById w ident of
             None \<Rightarrow> w
           | Some a \<Rightarrow>
               saveArticle (a\<lparr>currentSegmentIndex := nextIndex, lastPracticed := Some t\<rparr>) w))"

text \<open>
  \<open>handleNext\<close> takes the \<open>onComplete\<close> prop as a function on the world; \<open>t\<close> is the clock
  read of \<open>saveProgress\<close>.
\<close>

definition handleNext :: "int \<Rightarrow> (world \<Rightarrow> world) \<Rightarrow> practice \<Rightarrow> world \<Rightarrow> practice \<times> world" where
  "handleNext t onComplete p w =
     (let nextIndex = currentIndex p + 1 in
      if nextIndex < length (props_segments p) then
        (setCurrentIndex nextIndex p, saveProgress t (articleId p) nextIndex w)
      else
        (p, onComplete (saveProgress t (articleId p) 0 w)))"

text \<open>
  \<open>handlePracticeComplete\<close> of App.tsx, the \<open>onComplete\<close> handed to the practice component;
  \<open>currentArticleId\<close> is the same value as the component's \<open>articleId\<close> prop. (It also moves
  the application to the completed step, which unmounts the component.)
\<close>

definition handlePracticeComplete :: "int \<Rightarrow> int \<Rightarrow> int \<Rightarrow> string option \<Rightarrow> world \<Rightarrow> world" where
  "handlePracticeComplete t1 t2 t3 currentArticleId w =
     (case currentArticleId of
        None \<Rightarrow> w
      | Some ident \<Rightarrow> updateArticleProgress t1 t2 t3 ident w)"

section \<open>Scheduler properties\<close>

text \<open>
  C1. For every stage \<open>s\<close> the scheduler returns \<open>nextStage = s + 1\<close>; the days added are
  the table \<open>[1,3,5,7,14,30,60,90,120,150]\<close> at index \<open>s\<close> while \<open>s\<close> is inside the table and 30
  beyond it; \<open>nextDate\<close> is \<open>now\<close> plus that many days (of 86400000 ms); and \<open>isFinished\<close>
  is true exactly from stage 22 on.
\<close>

theorem calculateNextReview_spec:
  "nextStage (calculateNextReview now s) = s + 1
   \<and> nextDate (calculateNextReview now s)
       = now + int (if s < 10 then [1, 3, 5, 7, 14, 30, 60, 90, 120, 150] ! s else 30) * 86400000
   \<and> isFinished (calculateNextReview now s) = (22 \<le> s)"
  by (simp add: calculateNextReview_def SRS_INTERVALS_def oneDay_def Let_def)

section \<open>Example data\<close>

definition demo_segment :: "nat \<Rightarrow> string \<Rightarrow> segment" where
  "demo_segment i s =
     \<lparr>seg_ident = SegId i 0, seg_text = s, seg_translation = [],
      seg_start = Fin (rat_of_nat i), seg_end = Fin (rat_of_nat i + 1)\<rparr>"

definition demo_article :: article where
  "demo_article =
     \<lparr>article_id = ''a1'', title = ''demo'', createdAt = 0, lastPracticed = None,
      nextReview = 0, stage = 3,
      segments = [demo_segment 0 ''Hello, World!'', demo_segment 1 ''the quick brown fox''],
      currentSegmentIndex = 0, audioBlob = None\<rparr>"

definition demo_world :: world where
  "demo_world = \<lparr>db = [''a1'' \<mapsto> demo_article], calls = []\<rparr>"

definition demo_practice :: "nat \<Rightarrow> practice" where
  "demo_practice i =
     \<lparr>articleId = Some ''a1'', props_segments = segments demo_article, currentIndex = i,
      userInput = [], feedback_state = Neutral, selectedWord = None, lookupData = None,
      isLookingUp = False, savedWords = {}\<rparr>"

section \<open>Progress updates\<close>

lemma update_dormant:
  assumes "db w ident = Some a" and "article_id a = ident"
      and "t1 - createdAt a > 365 * 86400000"
  shows "updateArticleProgress t1 t2 t3 ident w
           = \<lparr>db = (db w)(ident \<mapsto>
                     a\<lparr>lastPracticed := Some t2, nextReview := t3 + 10 * (365 * 86400000)\<rparr>),
              calls = calls w @ [UpdateArticleProgress ident]\<rparr>"
  using assms
  by (simp add: updateArticleProgress_def getArticleById_def saveArticle_def oneYear_def Let_def)

lemma update_normal:
  assumes "db w ident = Some a" and "article_id a = ident"
      and "\<not> t1 - createdAt a > oneYear"
  shows "updateArticleProgress t1 t2 t3 ident w
           = \<lparr>db = (db w)(ident \<mapsto>
                     a\<lparr>lastPracticed := Some t3,
                       nextReview := nextDate (calculateNextReview t2 (stage a)),
                       stage := stage a + 1\<rparr>),
              calls = calls w @ [UpdateArticleProgress ident, CalculateNextReview (stage a)]\<rparr>"
  using assms
  by (simp add: updateArticleProgress_def getArticleById_def saveArticle_def Let_def
        calculateNextReview_def)

lemma saveProgress_found:
  assumes "db w ident = Some a" and "article_id a = ident"
  shows "saveProgress t (Some ident) n w
           = w\<lparr>db := (db w)(ident \<mapsto> a\<lparr>currentSegmentIndex := n, lastPracticed := Some t\<rparr>)\<rparr>"
  using assms by (simp add: saveProgress_def getArticleById_def saveArticle_def)

text \<open>
  C2. An article created more than one year (365 days) before the clock read of the
  dormancy test gets \<open>nextReview\<close> = clock + 10 years and \<open>lastPracticed\<close> = clock; its
  stage and every other field stay as they were, every other article stays as it was, and
  the call log gains the one entry of \<open>updateArticleProgress\<close> itself: the scheduler
  \<open>calculateNextReview\<close> is not invoked. (\<open>t1\<close>, \<open>t2\<close>, \<open>t3\<close> are the three successive
  reads of \<open>Date.now()\<close>; they are the same instant up to the time the three statements take.)
\<close>

theorem updateArticleProgress_dormant:
  assumes "db w ident = Some a" and "article_id a = ident"
      and "t1 - createdAt a > 365 * 86400000"
  shows "updateArticleProgress t1 t2 t3 ident w
           = \<lparr>db = (db w)(ident \<mapsto>
                     a\<lparr>lastPracticed := Some t2, nextReview := t3 + 10 * (365 * 86400000)\<rparr>),
              calls = calls w @ [UpdateArticleProgress ident]\<rparr>"
  using assms
  by (simp add: updateArticleProgress_def getArticleById_def saveArticle_def oneYear_def Let_def)

theorem updateArticleProgress_dormant_witness:
  "updateArticleProgress 31536000001 31536000002 31536000003 ''a1'' demo_world
     = \<lparr>db = [''a1'' \<mapsto> demo_article\<lparr>lastPracticed := Some 31536000002,
                                        nextReview := 346896000003\<rparr>],
        calls = [UpdateArticleProgress ''a1'']\<rparr>"
  using updateArticleProgress_dormant
          [of demo_world "''a1''" demo_article 31536000001 31536000002 31536000003]
  by (simp add: demo_world_def demo_article_def)

text \<open>
  C3. For an article present in the store: advancing from a segment that is not the last
  one stores the new cursor (and the \<open>lastPracticed\<close> stamp of \<open>saveProgress\<close>), leaves
  stage and \<open>nextReview\<close> alone and logs no call; advancing from the last of the \<open>N\<close>
  segments stores cursor 0 and applies \<open>updateArticleProgress\<close> exactly once: one log
  entry for it, the stage advanced by one and \<open>nextReview\<close> taken from one run of the
  scheduler (or, for a dormant article, the ten-year deferral with the stage kept).
\<close>

theorem handleNext_cycle:
  assumes "articleId p = Some ident" and "db w ident = Some a" and "article_id a = ident"
  shows "(currentIndex p + 1 < length (props_segments p) \<longrightarrow>
            handleNext t (handlePracticeComplete t1 t2 t3 (articleId p)) p w
              = (setCurrentIndex (currentIndex p + 1) p,
                 \<lparr>db = (db w)(ident \<mapsto>
                          a\<lparr>currentSegmentIndex := currentIndex p + 1, lastPracticed := Some t\<rparr>),
                  calls = calls w\<rparr>))
       \<and> (currentIndex p + 1 = length (props_segments p) \<longrightarrow>
            handleNext t (handlePracticeComplete t1 t2 t3 (articleId p)) p w
              = (p,
                 \<lparr>db = (db w)(ident \<mapsto>
                          (if t1 - createdAt a > 365 * 86400000
                           then a\<lparr>currentSegmentIndex := 0, lastPracticed := Some t2,
                                  nextReview := t3 + 10 * (365 * 86400000)\<rparr>
                           else a\<lparr>currentSegmentIndex := 0, lastPracticed := Some t3,
                                  nextReview := nextDate (calculateNextReview t2 (stage a)),
                                  stage := stage a + 1\<rparr>)),
                  calls = calls w @ [UpdateArticleProgress ident]
                            @ (if t1 - createdAt a > 365 * 86400000 then []
                               else [CalculateNextReview (stage a)])\<rparr>))"
proof -
  let ?a0 = "a\<lparr>currentSegmentIndex := 0, lastPracticed := Some t\<rparr>"
  let ?w0 = "saveProgress t (Some ident) 0 w"
  have w0: "?w0 = w\<lparr>db := (db w)(ident \<mapsto> ?a0)\<rparr>"
    using assms(2,3) by (rule saveProgress_found)
  have db0: "db ?w0 ident = Some ?a0" and id0: "article_id ?a0 = ident"
    using assms(3) by (simp_all add: w0)
  have mid: "currentIndex p + 1 < length (props_segments p) \<Longrightarrow>
      handleNext t (handlePracticeComplete t1 t2 t3 (articleId p)) p w
        = (setCurrentIndex (currentIndex p + 1) p,
           \<lparr>db = (db w)(ident \<mapsto>
                    a\<lparr>currentSegmentIndex := currentIndex p + 1, lastPracticed := Some t\<rparr>),
            calls = calls w\<rparr>)"
    using assms by (simp add: handleNext_def Let_def saveProgress_found)
  have last: "currentIndex p + 1 = length (props_segments p) \<Longrightarrow>
      handleNext t (handlePracticeComplete t1 t2 t3 (articleId p)) p w
        = (p, updateArticleProgress t1 t2 t3 ident ?w0)"
    using assms(1) by (simp add: handleNext_def Let_def handlePracticeComplete_def)
  have dorm: "t1 - createdAt a > 365 * 86400000 \<Longrightarrow>
      updateArticleProgress t1 t2 t3 ident ?w0
        = \<lparr>db = (db w)(ident \<mapsto> a\<lparr>currentSegmentIndex := 0, lastPracticed := Some t2,
                                    nextReview := t3 + 10 * (365 * 86400000)\<rparr>),
           calls = calls w @ [UpdateArticleProgress ident]\<rparr>"
    using update_dormant [OF db0 id0, of t1 t2 t3] by (simp add: w0)
  have norm: "\<not> t1 - createdAt a > 365 * 86400000 \<Longrightarrow>
      updateArticleProgress t1 t2 t3 ident ?w0
        = \<lparr>db = (db w)(ident \<mapsto> a\<lparr>currentSegmentIndex := 0, lastPracticed := Some t3,
                                    nextReview := nextDate (calculateNextReview t2 (stage a)),
                                    stage := stage a + 1\<rparr>),
           calls = calls w @ [UpdateArticleProgress ident, CalculateNextReview (stage a)]\<rparr>"
    using update_normal [OF db0 id0, of t1 t2 t3]
    by (simp add: w0 oneYear_def)
  show ?thesis
    using mid last dorm norm by (cases "t1 - createdAt a > 365 * 86400000") simp_all
qed

theorem handleNext_cycle_witness:
  "handleNext 5 (handlePracticeComplete 6 7 8 (Some ''a1'')) (demo_practice 0) demo_world
     = (setCurrentIndex 1 (demo_practice 0),
        \<lparr>db = [''a1'' \<mapsto> demo_article\<lparr>currentSegmentIndex := 1, lastPracticed := Some 5\<rparr>],
         calls = []\<rparr>)
   \<and> handleNext 5 (handlePracticeComplete 6 7 8 (Some ''a1'')) (demo_practice 1) demo_world
     = (demo_practice 1,
        \<lparr>db = [''a1'' \<mapsto> demo_article\<lparr>currentSegmentIndex := 0, lastPracticed := Some 8,
                                        nextReview := 7 + 7 * 86400000, stage := 4\<rparr>],
         calls = [UpdateArticleProgress ''a1'', CalculateNextReview 3]\<rparr>)"
  using handleNext_cycle [of "demo_practice 0" "''a1''" demo_world demo_article 5 6 7 8]
        handleNext_cycle [of "demo_practice 1" "''a1''" demo_world demo_article 5 6 7 8]
  by (simp add: demo_world_def demo_article_def demo_practice_def calculateNextReview_def
        SRS_INTERVALS_def oneDay_def)

section \<open>Text normalisation and matching (src/components/StepPractice.tsx)\<close>

text \<open>
  A string is a list of characters, one for each code point from U+0000 to U+00FF (ASCII and
  the Latin-1 supplement). \<open>isWhiteSpace\<close> is the \<open>\s\<close> class of a regular expression on
  these, which is also the set that \<open>String.prototype.trim\<close> strips and that \<open>parseInt\<close> and
  \<open>parseFloat\<close> skip: tab, line feed, vertical tab, form feed, carriage return, space and
  the no-break space U+00A0. \<open>toLowerCase\<close> maps the capitals \<open>A\<close>..\<open>Z\<close> and U+00C0..U+00DE
  (all but the multiplication sign U+00D7) to the letter 32 places further on, and leaves
  every other character as it is.
  \<open>cleanText\<close> is the chain \<open>toLowerCase\<close>, \<open>replace(/[.,/#!$%^&*;:{}=\-_`~()?"']/g, "")\<close>,
  \<open>replace(/\s{2,}/g, " ")\<close>, \<open>trim\<close>: the second replacement turns every maximal run of two
  or more whitespace characters into one space and leaves a lone whitespace character alone.
  \<open>splitWhitespace\<close> is \<open>split(/\s+/)\<close>, which yields one empty word for the empty string.
\<close>

definition isWhiteSpace :: "char \<Rightarrow> bool" where
  "isWhiteSpace c =
     (c \<in> set [CHR 0x09, CHR 0x0A, CHR 0x0B, CHR 0x0C, CHR 0x0D, CHR '' '', CHR 0xA0])"

definition isUpper :: "char \<Rightarrow> bool" where
  "isUpper c =
     (let n = of_char c :: nat
      in (0x41 \<le> n \<and> n \<le> 0x5A) \<or> (0xC0 \<le> n \<and> n \<le> 0xDE \<and> n \<noteq> 0xD7))"

definition toLowerChar :: "char \<Rightarrow> char" where
  "toLowerChar c = (if isUpper c then char_of (of_char c + (0x20 :: nat)) else c)"

definition toLowerCase :: "string \<Rightarrow> string" where
  "toLowerCase s = map toLowerChar s"

definition punctuation :: "char list" where
  "punctuation = ''.,/#!$%^&*;:{}=-_~()?'' @ [CHR 0x60, CHR 0x22, CHR 0x27]"

definition removePunctuation :: "string \<Rightarrow> string" where
  "removePunctuation s = filter (\<lambda>c. c \<notin> set punctuation) s"

function replaceSpaceRuns :: "string \<Rightarrow> string" where
  "replaceSpaceRuns [] = []"
| "replaceSpaceRuns [c] = [c]"
| "replaceSpaceRuns (c # d # cs) =
     (if isWhiteSpace c \<and> isWhiteSpace d
      then CHR '' '' # replaceSpaceRuns (dropWhile isWhiteSpace cs)
      else c # replaceSpaceRuns (d # cs))"
  by pat_completeness auto
termination
  by (relation "measure length") (auto simp: le_imp_less_Suc length_dropWhile_le less_Suc_eq_le le_SucI)

definition trim :: "string \<Rightarrow> string" where
  "trim s = rev (dropWhile isWhiteSpace (rev (dropWhile isWhiteSpace s)))"

definition cleanText :: "string \<Rightarrow> string" where
  "cleanText s = trim (replaceSpaceRuns (removePunctuation (toLowerCase s)))"

function splitWhitespace :: "string \<Rightarrow> string list" where
  "splitWhitespace s =
     (let w = takeWhile (\<lambda>c. \<not> isWhiteSpace c) s;
          r = dropWhile (\<lambda>c. \<not> isWhiteSpace c) s
      in if r = [] then [w] else w # splitWhitespace (dropWhile isWhiteSpace r))"
  by pat_completeness auto
termination
proof (relation "measure length")
  show "wf (measure length)" by simp
next
  fix s :: string and w r
  assume r: "r = dropWhile (\<lambda>c. \<not> isWhiteSpace c) s" and ne: "r \<noteq> []"
  from ne obtain c cs where rc: "r = c # cs" by (cases r) auto
  have "isWhiteSpace c"
    using r rc by (metis (mono_tags, lifting) dropWhile_eq_Cons_conv)
  then have "length (dropWhile isWhiteSpace r) \<le> length cs"
    by (simp add: rc length_dropWhile_le)
  moreover have "length r \<le> length s"
    by (simp add: r length_dropWhile_le)
  ultimately show "(dropWhile isWhiteSpace r, s) \<in> measure length"
    by (simp add: rc)
qed

declare splitWhitespace.simps [simp del]

definition getTargetWords :: "string \<Rightarrow> string list" where
  "getTargetWords segText = splitWhitespace (trim segText)"

function matchLoop :: "string list \<Rightarrow> string list \<Rightarrow> nat \<Rightarrow> nat \<Rightarrow> nat" where
  "matchLoop targetWords userWords i matchIndex =
     (if i < length targetWords then
        (if i \<ge> length userWords then matchIndex
         else if cleanText (targetWords ! i) = cleanText (userWords ! i)
              then matchLoop targetWords userWords (i + 1) (matchIndex + 1)
              else matchIndex)
      else matchIndex)"
  by pat_completeness auto
termination
  by (relation "measure (\<lambda>(targetWords, userWords, i, matchIndex). length targetWords - i)") auto

declare matchLoop.simps [simp del]

definition calculateMatchIndex :: "string \<Rightarrow> string \<Rightarrow> nat" where
  "calculateMatchIndex segText input =
     matchLoop (getTargetWords segText) (splitWhitespace (trim input)) 0 0"

datatype hint_span = Matched string | Hint string | Masked

definition renderHint :: "string \<Rightarrow> string \<Rightarrow> hint_span list" where
  "renderHint segText input =
     (let targetWords = getTargetWords segText;
          matchIndex = calculateMatchIndex segText input
      in map (\<lambda>(idx, word).
                if idx < matchIndex then Matched word
                else if idx = matchIndex then Hint word
                else Masked)
             (enumerate 0 targetWords))"

definition checkAnswer :: "practice \<Rightarrow> practice option" where
  "checkAnswer p =
     (if currentIndex p < length (props_segments p) then
        (let currentSegment = props_segments p ! currentIndex p;
             expected = cleanText (seg_text currentSegment);
             actual = cleanText (userInput p)
         in Some (p\<lparr>feedback_state := (if expected = actual then Correct else Incorrect)\<rparr>))
      else None)"

subsection \<open>The loop and the rendering in closed form\<close>

lemma matchLoop_prefix:
  "matchLoop tw uw i m
     = m + length (takeWhile (\<lambda>(t, u). cleanText t = cleanText u) (zip (drop i tw) (drop i uw)))"
proof (induction tw uw i m rule: matchLoop.induct)
  case (1 tw uw i m)
  show ?case
  proof (cases "i < length tw \<and> i < length uw")
    case True
    then have d: "drop i tw = tw ! i # drop (Suc i) tw" "drop i uw = uw ! i # drop (Suc i) uw"
      by (simp_all add: Cons_nth_drop_Suc)
    show ?thesis
    proof (cases "cleanText (tw ! i) = cleanText (uw ! i)")
      case eq: True
      with True 1 show ?thesis
        by (subst matchLoop.simps) (simp add: d)
    next
      case False
      with True show ?thesis
        by (subst matchLoop.simps) (simp add: d)
    qed
  next
    case False
    then show ?thesis
      by (subst matchLoop.simps) auto
  qed
qed

lemma render_split:
  "map (\<lambda>(idx, word). if idx < m then Matched word else if idx = m then Hint word else Masked)
       (enumerate k ws)
     = map Matched (take (m - k) ws)
       @ (if m < k then replicate (length ws) Masked
          else case drop (m - k) ws of [] \<Rightarrow> [] | h # r \<Rightarrow> Hint h # replicate (length r) Masked)"
proof (induction ws arbitrary: k)
  case Nil
  then show ?case by simp
next
  case (Cons w ws)
  show ?case
  proof (cases "k < m")
    case True
    then have "m - k = Suc (m - Suc k)" by simp
    with True Cons [of "Suc k"] show ?thesis by simp
  next
    case False
    with Cons [of "Suc k"] show ?thesis by (cases "m = k") auto
  qed
qed

subsection \<open>What the cleaned text looks like\<close>

lemma toLowerChar_not_upper: "\<not> isUpper (toLowerChar c)"
proof -
  have "(of_char c :: nat) mod 256 = of_char c" by simp
  then have "(of_char c :: nat) < 256" by (metis mod_less_divisor zero_less_numeral)
  then show ?thesis
    by (auto simp: toLowerChar_def isUpper_def Let_def)
qed

lemma space_facts:
  "isWhiteSpace (CHR '' '')" "CHR '' '' \<notin> set punctuation" "\<not> isUpper (CHR '' '')"
  by (simp_all add: isWhiteSpace_def punctuation_def isUpper_def)

lemma set_replaceSpaceRuns: "set (replaceSpaceRuns s) \<subseteq> insert (CHR '' '') (set s)"
proof (induction s rule: replaceSpaceRuns.induct)
  case (3 c d cs)
  have "set (dropWhile isWhiteSpace cs) \<subseteq> set cs"
    by (rule set_dropWhileD [THEN subsetI])
  with 3 show ?case by auto
qed simp_all

lemma set_trim: "set (trim s) \<subseteq> set s"
proof -
  have "set (trim s) \<subseteq> set (dropWhile isWhiteSpace s)"
    unfolding trim_def using set_dropWhileD [of _ isWhiteSpace "rev (dropWhile isWhiteSpace s)"]
    by auto
  also have "\<dots> \<subseteq> set s"
    by (rule set_dropWhileD [THEN subsetI])
  finally show ?thesis .
qed

lemma set_cleanText:
  "set (cleanText s) \<subseteq> insert (CHR '' '') {c \<in> toLowerChar ` set s. c \<notin> set punctuation}"
proof -
  have "set (cleanText s) \<subseteq> set (replaceSpaceRuns (removePunctuation (toLowerCase s)))"
    unfolding cleanText_def by (rule set_trim)
  also have "\<dots> \<subseteq> insert (CHR '' '') (set (removePunctuation (toLowerCase s)))"
    by (rule set_replaceSpaceRuns)
  also have "set (removePunctuation (toLowerCase s)) = {c \<in> toLowerChar ` set s. c \<notin> set punctuation}"
    by (auto simp: removePunctuation_def toLowerCase_def)
  finally show ?thesis .
qed

lemma cleanText_no_punctuation: "c \<in> set (cleanText s) \<Longrightarrow> c \<notin> set punctuation"
  using set_cleanText [of s] space_facts(2) by auto

lemma cleanText_no_upper: "c \<in> set (cleanText s) \<Longrightarrow> \<not> isUpper c"
  using set_cleanText [of s] space_facts(3) toLowerChar_not_upper by auto

fun noDoubleSpace :: "string \<Rightarrow> bool" where
  "noDoubleSpace (c # d # cs) = (\<not> (isWhiteSpace c \<and> isWhiteSpace d) \<and> noDoubleSpace (d # cs))"
| "noDoubleSpace cs = True"

lemma hd_replaceSpaceRuns:
  "isWhiteSpace (hd (replaceSpaceRuns (d # cs))) = isWhiteSpace d"
  by (cases cs) (simp_all add: space_facts(1))

lemma replaceSpaceRuns_Nil_iff: "replaceSpaceRuns s = [] \<longleftrightarrow> s = []"
  by (induction s rule: replaceSpaceRuns.induct) simp_all

lemma noDoubleSpace_Cons:
  "noDoubleSpace (c # t) = ((t = [] \<or> \<not> (isWhiteSpace c \<and> isWhiteSpace (hd t))) \<and> noDoubleSpace t)"
  by (cases t) simp_all

lemma noDoubleSpace_replaceSpaceRuns: "noDoubleSpace (replaceSpaceRuns s)"
proof (induction s rule: replaceSpaceRuns.induct)
  case (3 c d cs)
  show ?case
  proof (cases "isWhiteSpace c \<and> isWhiteSpace d")
    case True
    let ?r = "dropWhile isWhiteSpace cs"
    have "replaceSpaceRuns ?r = [] \<or> \<not> isWhiteSpace (hd (replaceSpaceRuns ?r))"
    proof (cases ?r)
      case Nil
      show ?thesis unfolding Nil by simp
    next
      case (Cons a l)
      then have "\<not> isWhiteSpace a"
        using hd_dropWhile [of isWhiteSpace cs] by (metis list.sel(1) list.distinct(1))
      then show ?thesis
        by (simp only: Cons hd_replaceSpaceRuns) simp
    qed
    with True 3 show ?thesis
      by (simp add: noDoubleSpace_Cons)
  next
    case False
    then have eq: "replaceSpaceRuns (c # d # cs) = c # replaceSpaceRuns (d # cs)"
      by auto
    have ih: "noDoubleSpace (replaceSpaceRuns (d # cs))"
      using 3(2) False by blast
    have "\<not> (isWhiteSpace c \<and> isWhiteSpace (hd (replaceSpaceRuns (d # cs))))"
      using False by (simp add: hd_replaceSpaceRuns del: replaceSpaceRuns.simps)
    with ih show ?thesis
      unfolding eq by (subst noDoubleSpace_Cons) blast
  qed
qed simp_all

lemma noDoubleSpace_append: "noDoubleSpace (xs @ ys) \<Longrightarrow> noDoubleSpace xs \<and> noDoubleSpace ys"
proof (induction xs)
  case Nil
  then show ?case by simp
next
  case (Cons x xs)
  from Cons.prems have step: "xs @ ys = [] \<or> \<not> (isWhiteSpace x \<and> isWhiteSpace (hd (xs @ ys)))"
    and rest: "noDoubleSpace (xs @ ys)"
    by (simp_all add: noDoubleSpace_Cons)
  from rest Cons.IH have ih: "noDoubleSpace xs" "noDoubleSpace ys" by simp_all
  from step have "xs = [] \<or> \<not> (isWhiteSpace x \<and> isWhiteSpace (hd xs))"
    by (cases xs) simp_all
  with ih show ?case by (simp add: noDoubleSpace_Cons)
qed

lemma trim_decomp: "\<exists>pre post. s = pre @ trim s @ post"
proof -
  let ?d = "dropWhile isWhiteSpace s"
  have "s = takeWhile isWhiteSpace s @ ?d" by simp
  moreover have "rev ?d = takeWhile isWhiteSpace (rev ?d) @ dropWhile isWhiteSpace (rev ?d)" by simp
  then have "?d = trim s @ rev (takeWhile isWhiteSpace (rev ?d))"
    unfolding trim_def by (metis rev_append rev_rev_ident)
  ultimately have "s = takeWhile isWhiteSpace s @ trim s @ rev (takeWhile isWhiteSpace (rev ?d))"
    by simp
  then show ?thesis by blast
qed

lemma noDoubleSpace_trim: "noDoubleSpace s \<Longrightarrow> noDoubleSpace (trim s)"
proof -
  assume a: "noDoubleSpace s"
  obtain pre post where "s = pre @ trim s @ post" using trim_decomp by blast
  with a have "noDoubleSpace (pre @ trim s @ post)" by simp
  then show ?thesis using noDoubleSpace_append by blast
qed

lemma cleanText_noDoubleSpace: "noDoubleSpace (cleanText s)"
  unfolding cleanText_def by (intro noDoubleSpace_trim noDoubleSpace_replaceSpaceRuns)

lemma trim_ends:
  "trim s = [] \<or> (\<not> isWhiteSpace (hd (trim s)) \<and> \<not> isWhiteSpace (last (trim s)))"
proof (cases "trim s = []")
  case False
  let ?d = "dropWhile isWhiteSpace s"
  let ?e = "dropWhile isWhiteSpace (rev ?d)"
  from False have e: "?e \<noteq> []" by (simp add: trim_def)
  then have l: "\<not> isWhiteSpace (hd ?e)" using hd_dropWhile by blast
  have last: "last (trim s) = hd ?e" using e by (simp add: trim_def last_rev)
  from e have dne: "?d \<noteq> []" by (metis dropWhile.simps(1) rev.simps(1))
  then have hdd: "\<not> isWhiteSpace (hd ?d)" using hd_dropWhile by blast
  have "rev ?d = takeWhile isWhiteSpace (rev ?d) @ ?e" by simp
  then have "?d = rev ?e @ rev (takeWhile isWhiteSpace (rev ?d))"
    by (metis rev_append rev_rev_ident)
  then have "hd ?d = hd (rev ?e)" using e by (metis hd_append2 rev_is_Nil_conv)
  then have "\<not> isWhiteSpace (hd (trim s))" using hdd by (simp add: trim_def)
  with l last show ?thesis by simp
qed simp

subsection \<open>Checking and hinting\<close>

text \<open>
  C4. With a current segment, the check sets the feedback to \<open>Correct\<close> exactly when the
  cleaned segment text equals the cleaned input, and to \<open>Incorrect\<close> otherwise, changing
  nothing else. The cleaned text has no upper-case letter (ASCII or Latin-1) and none of the
  24 punctuation characters, no two adjacent whitespace characters, and no whitespace at
  either end. \<open>Hello, World!\<close> and \<open>hello world\<close> clean to the same text, and \<open>  a   b \<close>
  cleans to \<open>a b\<close>; \<open>a\<close>, two no-break spaces, \<open>B\<close> and a capital E with acute clean to
  \<open>a b\<close> and a small e with acute.
\<close>

theorem checkAnswer_spec:
  assumes "currentIndex p < length (props_segments p)"
  shows "(\<exists>fb. checkAnswer p = Some (p\<lparr>feedback_state := fb\<rparr>)
            \<and> (fb = Correct \<longleftrightarrow>
                 cleanText (seg_text (props_segments p ! currentIndex p)) = cleanText (userInput p))
            \<and> (fb = Incorrect \<longleftrightarrow>
                 cleanText (seg_text (props_segments p ! currentIndex p)) \<noteq> cleanText (userInput p)))
       \<and> (\<forall>c \<in> set (cleanText s). \<not> isUpper c \<and> c \<notin> set punctuation)
       \<and> noDoubleSpace (cleanText s)
       \<and> (cleanText s = [] \<or>
            (\<not> isWhiteSpace (hd (cleanText s)) \<and> \<not> isWhiteSpace (last (cleanText s))))
       \<and> cleanText ''Hello, World!'' = ''hello world''
       \<and> cleanText ''hello world'' = ''hello world''
       \<and> cleanText ''  a   b '' = ''a b''
       \<and> cleanText (''a'' @ [CHR 0xA0, CHR 0xA0] @ ''B'' @ [CHR 0xC9]) = ''a b'' @ [CHR 0xE9]"
proof -
  have chk: "\<exists>fb. checkAnswer p = Some (p\<lparr>feedback_state := fb\<rparr>)
            \<and> (fb = Correct \<longleftrightarrow>
                 cleanText (seg_text (props_segments p ! currentIndex p)) = cleanText (userInput p))
            \<and> (fb = Incorrect \<longleftrightarrow>
                 cleanText (seg_text (props_segments p ! currentIndex p)) \<noteq> cleanText (userInput p))"
    using assms by (simp add: checkAnswer_def Let_def)
  have chars: "\<forall>c \<in> set (cleanText s). \<not> isUpper c \<and> c \<notin> set punctuation"
    using cleanText_no_upper cleanText_no_punctuation by blast
  have ends: "cleanText s = [] \<or>
      (\<not> isWhiteSpace (hd (cleanText s)) \<and> \<not> isWhiteSpace (last (cleanText s)))"
    unfolding cleanText_def by (rule trim_ends)
  have e1: "cleanText ''Hello, World!'' = ''hello world''" by code_simp
  have e2: "cleanText ''hello world'' = ''hello world''" by code_simp
  have e3: "cleanText ''  a   b '' = ''a b''" by code_simp
  have e4: "cleanText (''a'' @ [CHR 0xA0, CHR 0xA0] @ ''B'' @ [CHR 0xC9]) = ''a b'' @ [CHR 0xE9]"
    by code_simp
  from chk chars cleanText_noDoubleSpace [of s] ends e1 e2 e3 e4 show ?thesis
    by (intro conjI)
qed

theorem checkAnswer_spec_witness:
  "checkAnswer (demo_practice 0\<lparr>userInput := ''hello world''\<rparr>)
     = Some (demo_practice 0\<lparr>userInput := ''hello world'', feedback_state := Correct\<rparr>)
   \<and> checkAnswer (demo_practice 1\<lparr>userInput := ''the quick red fox''\<rparr>)
     = Some (demo_practice 1\<lparr>userInput := ''the quick red fox'', feedback_state := Incorrect\<rparr>)"
proof -
  have t0: "seg_text (props_segments (demo_practice 0) ! 0) = ''Hello, World!''"
    and t1: "seg_text (props_segments (demo_practice 1) ! 1) = ''the quick brown fox''"
    by (simp_all add: demo_practice_def demo_article_def demo_segment_def)
  have c1: "cleanText ''the quick brown fox'' \<noteq> cleanText ''the quick red fox''"
    by code_simp
  have l0: "currentIndex (demo_practice 0\<lparr>userInput := ''hello world''\<rparr>)
              < length (props_segments (demo_practice 0\<lparr>userInput := ''hello world''\<rparr>))"
    and l1: "currentIndex (demo_practice 1\<lparr>userInput := ''the quick red fox''\<rparr>)
              < length (props_segments (demo_practice 1\<lparr>userInput := ''the quick red fox''\<rparr>))"
    by (simp_all add: demo_practice_def demo_article_def)
  from checkAnswer_spec [OF l0, of "[]"] have "checkAnswer (demo_practice 0\<lparr>userInput := ''hello world''\<rparr>)
     = Some (demo_practice 0\<lparr>userInput := ''hello world'', feedback_state := Correct\<rparr>)"
    using t0 by (auto simp: demo_practice_def)
  moreover from checkAnswer_spec [OF l1, of "[]"] have "checkAnswer (demo_practice 1\<lparr>userInput := ''the quick red fox''\<rparr>)
     = Some (demo_practice 1\<lparr>userInput := ''the quick red fox'', feedback_state := Incorrect\<rparr>)"
    using t1 c1 by (auto simp: demo_practice_def)
  ultimately show ?thesis by simp
qed

text \<open>
  C5. The match index is the length of the longest common prefix of the two word lists
  (target and input, each trimmed and split at whitespace) under equality of the cleaned
  words: the walk stops at the first pair that differs or when either list ends. The hint
  shows the target words before the match index as matched, the word at the match index
  (when there is one) as the hint, and every later word masked. For target
  \<open>the quick brown fox\<close> and input \<open>the quick red fox\<close>: matched \<open>the\<close>, \<open>quick\<close>; hint
  \<open>brown\<close>; one masked word. A no-break space separates words, and a capital E with acute
  matches a small one.
\<close>

theorem calculateMatchIndex_spec:
  "calculateMatchIndex segText input
     = length (takeWhile (\<lambda>(t, u). cleanText t = cleanText u)
                 (zip (getTargetWords segText) (splitWhitespace (trim input))))
   \<and> renderHint segText input
     = map Matched (take (calculateMatchIndex segText input) (getTargetWords segText))
       @ (case drop (calculateMatchIndex segText input) (getTargetWords segText) of
            [] \<Rightarrow> []
          | h # r \<Rightarrow> Hint h # replicate (length r) Masked)
   \<and> getTargetWords ''the quick brown fox'' = [''the'', ''quick'', ''brown'', ''fox'']
   \<and> splitWhitespace (trim ''the quick red fox'') = [''the'', ''quick'', ''red'', ''fox'']
   \<and> calculateMatchIndex ''the quick brown fox'' ''the quick red fox'' = 2
   \<and> renderHint ''the quick brown fox'' ''the quick red fox''
     = [Matched ''the'', Matched ''quick'', Hint ''brown'', Masked]
   \<and> getTargetWords (''a'' @ [CHR 0xA0] @ ''b'') = [''a'', ''b'']
   \<and> calculateMatchIndex ([CHR 0xC9] @ '' b'') ([CHR 0xE9] @ '' c'') = 1"
proof -
  have m: "calculateMatchIndex segText input
     = length (takeWhile (\<lambda>(t, u). cleanText t = cleanText u)
                 (zip (getTargetWords segText) (splitWhitespace (trim input))))"
    by (simp add: calculateMatchIndex_def matchLoop_prefix)
  have r: "renderHint segText input
     = map Matched (take (calculateMatchIndex segText input) (getTargetWords segText))
       @ (case drop (calculateMatchIndex segText input) (getTargetWords segText) of
            [] \<Rightarrow> []
          | h # r \<Rightarrow> Hint h # replicate (length r) Masked)"
    unfolding renderHint_def Let_def
    using render_split [of "calculateMatchIndex segText input" 0 "getTargetWords segText"]
    by simp
  have e1: "getTargetWords ''the quick brown fox'' = [''the'', ''quick'', ''brown'', ''fox'']"
    by code_simp
  have e2: "splitWhitespace (trim ''the quick red fox'') = [''the'', ''quick'', ''red'', ''fox'']"
    by code_simp
  have e3: "calculateMatchIndex ''the quick brown fox'' ''the quick red fox'' = 2"
    by code_simp
  have e4: "renderHint ''the quick brown fox'' ''the quick red fox''
     = [Matched ''the'', Matched ''quick'', Hint ''brown'', Masked]"
    by code_simp
  have e5: "getTargetWords (''a'' @ [CHR 0xA0] @ ''b'') = [''a'', ''b'']"
    by code_simp
  have e6: "calculateMatchIndex ([CHR 0xC9] @ '' b'') ([CHR 0xE9] @ '' c'') = 1"
    by code_simp
  from m r e1 e2 e3 e4 e5 e6 show ?thesis by (intro conjI)
qed

section \<open>Numbers and timestamps (services/geminiService, src/unnamed/part_000)\<close>

text \<open>
  JavaScript numbers are IEEE 754 doubles. A finite double is kept as the rational number it
  denotes; the two zeros are one value (they are equal for \<open>===\<close>, and no operation used here
  tells them apart). \<open>toNumber x\<close> is the double nearest to the rational \<open>x\<close>, a tie going to
  the even significand: with \<open>e\<close> the binary exponent of \<open>x\<close>, and at least -1022 (below that
  the doubles are the evenly spaced subnormal numbers), the doubles around \<open>x\<close> are the
  multiples of \<open>2 ^ (e - 52)\<close>; a rounded magnitude of \<open>2 ^ 1024\<close> or more is an infinity.
  Every product and sum, and every number read from a string, is rounded in this way.
\<close>

function bitLength :: "nat \<Rightarrow> nat" where
  "bitLength n = (if n = 0 then 0 else Suc (bitLength (n div 2)))"
  by pat_completeness auto
termination
  by (relation "measure id") auto

declare bitLength.simps [simp del]

text \<open>The binary exponent of a positive rational: the \<open>e\<close> with \<open>2 ^ e \<le> a < 2 ^ (e + 1)\<close>.\<close>

definition floorLog2 :: "rat \<Rightarrow> int" where
  "floorLog2 a =
     (if 1 \<le> a then int (bitLength (nat \<lfloor>a\<rfloor>)) - 1
      else - int (bitLength (nat (\<lceil>1 / a\<rceil> - 1))))"

definition roundHalfEven :: "rat \<Rightarrow> int" where
  "roundHalfEven x =
     (let f = \<lfloor>x\<rfloor>; d = x - of_int f
      in if d < 1 / 2 then f
         else if 1 / 2 < d then f + 1
         else if even f then f else f + 1)"

definition pow2 :: "int \<Rightarrow> rat" where
  "pow2 e = (if 0 \<le> e then 2 ^ nat e else 1 / 2 ^ nat (- e))"

definition toNumber :: "rat \<Rightarrow> jsnum" where
  "toNumber x =
     (if x = 0 then Fin 0
      else
        (let a = \<bar>x\<bar>;
             e = max (floorLog2 a) (- 1022);
             ulp = pow2 (e - 52);
             r = of_int (roundHalfEven (a / ulp)) * ulp
         in if pow2 1024 \<le> r then (if 0 < x then PosInf else NegInf)
            else Fin (if 0 < x then r else - r)))"

fun jsMul :: "jsnum \<Rightarrow> jsnum \<Rightarrow> jsnum" where
  "jsMul NaN y = NaN"
| "jsMul x NaN = NaN"
| "jsMul (Fin a) (Fin b) = toNumber (a * b)"
| "jsMul (Fin a) PosInf = (if a = 0 then NaN else if 0 < a then PosInf else NegInf)"
| "jsMul (Fin a) NegInf = (if a = 0 then NaN else if 0 < a then NegInf else PosInf)"
| "jsMul PosInf (Fin b) = (if b = 0 then NaN else if 0 < b then PosInf else NegInf)"
| "jsMul NegInf (Fin b) = (if b = 0 then NaN else if 0 < b then NegInf else PosInf)"
| "jsMul PosInf PosInf = PosInf"
| "jsMul PosInf NegInf = NegInf"
| "jsMul NegInf PosInf = NegInf"
| "jsMul NegInf NegInf = PosInf"

fun jsAdd :: "jsnum \<Rightarrow> jsnum \<Rightarrow> jsnum" where
  "jsAdd NaN y = NaN"
| "jsAdd x NaN = NaN"
| "jsAdd (Fin a) (Fin b) = toNumber (a + b)"
| "jsAdd PosInf NegInf = NaN"
| "jsAdd NegInf PosInf = NaN"
| "jsAdd PosInf y = PosInf"
| "jsAdd NegInf y = NegInf"
| "jsAdd x PosInf = PosInf"
| "jsAdd x NegInf = NegInf"

text \<open>\<open>x || 0\<close>: \<open>NaN\<close> and zero are falsy.\<close>

fun jsOrZero :: "jsnum \<Rightarrow> jsnum" where
  "jsOrZero NaN = Fin 0"
| "jsOrZero (Fin a) = (if a = 0 then Fin 0 else Fin a)"
| "jsOrZero x = x"

definition isDigit :: "char \<Rightarrow> bool" where
  "isDigit c = (c \<in> set ''0123456789'')"

definition digitVal :: "char \<Rightarrow> nat" where
  "digitVal c =
     (case map_of (zip ''0123456789'' [0, 1, 2, 3, 4, 5, 6, 7, 8, 9]) c of
        Some d \<Rightarrow> d
      | None \<Rightarrow> 0)"

definition digitsVal :: "string \<Rightarrow> nat" where
  "digitsVal ds = foldl (\<lambda>a c. 10 * a + digitVal c) 0 ds"

text \<open>A leading sign, as \<open>parseInt\<close> and \<open>parseFloat\<close> read it: (negative, rest).\<close>

definition takeSign :: "string \<Rightarrow> bool \<times> string" where
  "takeSign s =
     (case s of
        [] \<Rightarrow> (False, [])
      | c # cs \<Rightarrow>
          if c = CHR ''-'' then (True, cs)
          else if c = CHR ''+'' then (False, cs)
          else (False, s))"

text \<open>
  \<open>parseInt(s, 10)\<close>: leading whitespace is skipped, a sign is read, then the longest run
  of decimal digits; no digit gives \<open>NaN\<close>. The integer read is rounded to a double.
\<close>

definition parseInt :: "string \<Rightarrow> jsnum" where
  "parseInt s =
     (let (neg, S) = takeSign (dropWhile isWhiteSpace s);
          Z = takeWhile isDigit S
      in if Z = [] then NaN
         else toNumber (if neg then - of_nat (digitsVal Z) else of_nat (digitsVal Z)))"

text \<open>
  The exponent part \<open>e\<close>/\<open>E\<close>, optional sign, digits; it counts only when it has a digit.
\<close>

definition exponentOf :: "string \<Rightarrow> int" where
  "exponentOf r =
     (case r of
        [] \<Rightarrow> 0
      | c # cs \<Rightarrow>
          if c = CHR ''e'' \<or> c = CHR ''E'' then
            (let (neg, ds) = takeSign cs; Z = takeWhile isDigit ds
             in if Z = [] then 0
                else if neg then - int (digitsVal Z) else int (digitsVal Z))
          else 0)"

definition scale10 :: "rat \<Rightarrow> int \<Rightarrow> rat" where
  "scale10 x e = (if 0 \<le> e then x * 10 ^ nat e else x / 10 ^ nat (- e))"

text \<open>
  \<open>parseFloat(s)\<close>: leading whitespace is skipped and the longest prefix that is a decimal
  literal is read: sign, then \<open>Infinity\<close>, or digits with an optional fraction, or a
  fraction alone, each with an optional exponent. No such prefix gives \<open>NaN\<close>. The decimal
  value of the literal is rounded to the nearest double (the language leaves the digits
  after the twentieth significant one to the engine; V8 rounds the exact value).
\<close>

definition parseFloat :: "string \<Rightarrow> jsnum" where
  "parseFloat s =
     (let (neg, S) = takeSign (dropWhile isWhiteSpace s) in
      if take 8 S = ''Infinity'' then (if neg then NegInf else PosInf)
      else
        (let intPart = takeWhile isDigit S;
             r1 = dropWhile isDigit S;
             hasDot = (r1 \<noteq> [] \<and> hd r1 = CHR ''.'');
             fracPart = (if hasDot then takeWhile isDigit (tl r1) else []);
             r2 = (if hasDot then dropWhile isDigit (tl r1) else r1)
         in if intPart = [] \<and> fracPart = [] then NaN
            else
              (let mantissa = of_nat (digitsVal (intPart @ fracPart)) / 10 ^ length fracPart;
                   v = scale10 mantissa (exponentOf r2)
               in toNumber (if neg then - v else v))))"

text \<open>\<open>s.split(sep)\<close> for a one-character separator.\<close>

function splitOn :: "char \<Rightarrow> string \<Rightarrow> string list" where
  "splitOn sep s =
     (let w = takeWhile (\<lambda>c. c \<noteq> sep) s;
          r = dropWhile (\<lambda>c. c \<noteq> sep) s
      in if r = [] then [w] else w # splitOn sep (tl r))"
  by pat_completeness auto
termination
proof (relation "measure (\<lambda>(sep, s). length s)")
  show "wf (measure (\<lambda>(sep, s). length s))" by simp
next
  fix sep :: char and s :: string and w r
  assume r: "r = dropWhile (\<lambda>c. c \<noteq> sep) s" and ne: "r \<noteq> []"
  have "length r \<le> length s"
    by (simp add: r length_dropWhile_le)
  with ne show "((sep, tl r), sep, s) \<in> measure (\<lambda>(sep, s). length s)"
    by (cases r) simp_all
qed

declare splitOn.simps [simp del]

definition parseTimestamp :: "string \<Rightarrow> jsnum" where
  "parseTimestamp timeStr =
     (if timeStr = [] then Fin 0
      else
        (let parts = splitOn (CHR '':'') (trim timeStr) in
         if length parts = 2 then
           (let minutes = parseInt (parts ! 0);
                seconds = parseFloat (parts ! 1)
            in jsAdd (jsMul minutes (Fin 60)) seconds)
         else if length parts = 3 then
           (let hours = parseInt (parts ! 0);
                minutes = parseInt (parts ! 1);
                seconds = parseFloat (parts ! 2)
            in jsAdd (jsAdd (jsMul hours (Fin 3600)) (jsMul minutes (Fin 60))) seconds)
         else jsOrZero (parseFloat timeStr)))"

subsection \<open>The three timestamp formats, as the specification words them\<close>

text \<open>
  These definitions follow the specification, not the code: a timestamp is \<open>SS[.mmm]\<close>,
  \<open>MM:SS[.mmm]\<close> or \<open>H:MM:SS[.mmm]\<close>, where hours, minutes and whole seconds are decimal
  digit strings and the optional fraction is a dot followed by digits; its value is
  \<open>hours * 3600 + minutes * 60 + seconds\<close>, in the arithmetic of the language: the number
  denoted by each part is a double, and so is every product and sum.
\<close>

definition isDigits :: "string \<Rightarrow> bool" where
  "isDigits x = (x \<noteq> [] \<and> list_all isDigit x)"

definition isSeconds :: "string \<Rightarrow> bool" where
  "isSeconds x =
     (let i = takeWhile isDigit x; r = dropWhile isDigit x
      in i \<noteq> [] \<and> (r = [] \<or> (hd r = CHR ''.'' \<and> isDigits (tl r))))"

definition secondsValue :: "string \<Rightarrow> rat" where
  "secondsValue x =
     (let i = takeWhile isDigit x; f = tl (dropWhile isDigit x)
      in of_nat (digitsVal i) + of_nat (digitsVal f) / 10 ^ length f)"

definition spec_format :: "string \<Rightarrow> bool" where
  "spec_format t =
     (case splitOn (CHR '':'') t of
        [s] \<Rightarrow> isSeconds s
      | [m, s] \<Rightarrow> isDigits m \<and> isSeconds s
      | [h, m, s] \<Rightarrow> isDigits h \<and> isDigits m \<and> isSeconds s
      | _ \<Rightarrow> False)"

definition spec_seconds :: "string \<Rightarrow> jsnum" where
  "spec_seconds t =
     (case splitOn (CHR '':'') t of
        [s] \<Rightarrow> toNumber (secondsValue s)
      | [m, s] \<Rightarrow>
          jsAdd (jsMul (toNumber (of_nat (digitsVal m))) (Fin 60)) (toNumber (secondsValue s))
      | [h, m, s] \<Rightarrow>
          jsAdd (jsAdd (jsMul (toNumber (of_nat (digitsVal h))) (Fin 3600))
                       (jsMul (toNumber (of_nat (digitsVal m))) (Fin 60)))
                (toNumber (secondsValue s))
      | _ \<Rightarrow> Fin 0)"

text \<open>
  Without a fraction the parts are natural numbers, and so is the value.
\<close>

definition spec_whole :: "string \<Rightarrow> bool" where
  "spec_whole t =
     (case splitOn (CHR '':'') t of
        [s] \<Rightarrow> isDigits s
      | [m, s] \<Rightarrow> isDigits m \<and> isDigits s
      | [h, m, s] \<Rightarrow> isDigits h \<and> isDigits m \<and> isDigits s
      | _ \<Rightarrow> False)"

definition spec_whole_seconds :: "string \<Rightarrow> nat" where
  "spec_whole_seconds t =
     (case splitOn (CHR '':'') t of
        [s] \<Rightarrow> digitsVal s
      | [m, s] \<Rightarrow> digitsVal m * 60 + digitsVal s
      | [h, m, s] \<Rightarrow> digitsVal h * 3600 + digitsVal m * 60 + digitsVal s
      | _ \<Rightarrow> 0)"

subsection \<open>Rounding\<close>

lemma bitLength_eval:
  "bitLength 0 = 0"
  "bitLength (Suc 0) = 1"
  "bitLength (numeral Num.One) = 1"
  "bitLength (numeral (Num.Bit0 k)) = Suc (bitLength (numeral k))"
  "bitLength (numeral (Num.Bit1 k)) = Suc (bitLength (numeral k))"
proof -
  show "bitLength 0 = 0" by (simp add: bitLength.simps)
  show "bitLength (Suc 0) = 1" by (simp add: bitLength.simps [of "Suc 0"] bitLength.simps [of 0])
  then show "bitLength (numeral Num.One) = 1" by simp
  have "numeral (Num.Bit0 k) div 2 = (numeral k :: nat)" by simp
  then show "bitLength (numeral (Num.Bit0 k)) = Suc (bitLength (numeral k))"
    by (subst bitLength.simps) simp
  have "numeral (Num.Bit1 k) div 2 = (numeral k :: nat)" by simp
  then show "bitLength (numeral (Num.Bit1 k)) = Suc (bitLength (numeral k))"
    by (subst bitLength.simps) simp
qed

lemma floor_eval:
  "\<lfloor>(numeral a :: rat) / numeral b\<rfloor> = numeral a div numeral b"
  "\<lceil>(numeral a :: rat) / numeral b\<rceil> = - (- numeral a div numeral b)"
proof -
  show "\<lfloor>(numeral a :: rat) / numeral b\<rfloor> = numeral a div numeral b"
    by (metis floor_divide_of_int_eq of_int_numeral)
  have "\<lceil>(numeral a :: rat) / numeral b\<rceil> = - \<lfloor>(- numeral a :: rat) / numeral b\<rfloor>"
    by (simp add: ceiling_def)
  also have "\<lfloor>(- numeral a :: rat) / numeral b\<rfloor> = - numeral a div numeral b"
    by (metis floor_divide_of_int_eq of_int_numeral of_int_minus)
  finally show "\<lceil>(numeral a :: rat) / numeral b\<rceil> = - (- numeral a div numeral b)" .
qed

lemmas number_eval = toNumber_def floorLog2_def roundHalfEven_def pow2_def bitLength_eval Let_def
  floor_eval

lemma toNumber_not_NaN: "toNumber x \<noteq> NaN"
  by (simp add: toNumber_def Let_def)

lemma jsOrZero_toNumber: "jsOrZero (toNumber x) = toNumber x"
  using toNumber_not_NaN [of x] by (cases "toNumber x") simp_all

lemma bitLength_bound: "n < 2 ^ k \<Longrightarrow> bitLength n \<le> k"
proof (induction k arbitrary: n)
  case 0
  then show ?case by (simp add: bitLength.simps)
next
  case (Suc k)
  show ?case
  proof (cases "n = 0")
    case True
    then show ?thesis by (simp add: bitLength.simps)
  next
    case False
    from Suc.prems have "n div 2 < 2 ^ k" by simp
    then have "bitLength (n div 2) \<le> k" by (rule Suc.IH)
    with False show ?thesis by (subst bitLength.simps) simp
  qed
qed

lemma roundHalfEven_of_int: "roundHalfEven (of_int m) = m"
  by (simp add: roundHalfEven_def)

text \<open>A natural number below \<open>2 ^ 53\<close> is a double.\<close>

lemma toNumber_of_nat:
  assumes "n < 2 ^ 53"
  shows "toNumber (of_nat n) = Fin (of_nat n)"
proof (cases "n = 0")
  case True
  then show ?thesis by (simp add: toNumber_def)
next
  case False
  define b where "b = bitLength n"
  from False have b1: "1 \<le> b" unfolding b_def by (subst bitLength.simps) simp
  from assms have b53: "b \<le> 53" unfolding b_def by (rule bitLength_bound)
  define k where "k = 53 - b"
  have fl: "floorLog2 (of_nat n) = int b - 1"
    using False by (simp add: floorLog2_def b_def)
  have mx: "max (int b - 1) (- 1022) = int b - 1" using b1 by simp
  have ulp: "pow2 (int b - 1 - 52) = 1 / 2 ^ k"
  proof (cases "b = 53")
    case True
    then show ?thesis by (simp add: pow2_def k_def)
  next
    case False
    with b53 have "b < 53" by simp
    then have "nat (52 - (int b - 1)) = k" unfolding k_def by simp
    moreover have "\<not> 0 \<le> int b - 1 - 52" using \<open>b < 53\<close> by simp
    ultimately show ?thesis by (simp add: pow2_def)
  qed
  have q: "(of_nat n :: rat) / (1 / 2 ^ k) = of_int (int (n * 2 ^ k))" by simp
  have r: "of_int (roundHalfEven ((of_nat n :: rat) / (1 / 2 ^ k))) * (1 / 2 ^ k) = (of_nat n :: rat)"
    unfolding q roundHalfEven_of_int by simp
  have "(of_nat n :: rat) < 2 ^ 53" using assms by (metis of_nat_less_iff of_nat_numeral of_nat_power)
  also have "(2 :: rat) ^ 53 \<le> pow2 1024" by (simp add: pow2_def)
  finally have small: "\<not> pow2 1024 \<le> (of_nat n :: rat)" by simp
  have pos: "(0 :: rat) < of_nat n" using False by simp
  have ab: "\<bar>of_nat n :: rat\<bar> = of_nat n" by simp
  show ?thesis
    unfolding toNumber_def Let_def ab fl mx ulp r
    using False small pos by simp
qed

subsection \<open>Parsing well-formed numbers\<close>

lemma digit_facts:
  assumes "isDigit c"
  shows "\<not> isWhiteSpace c" "c \<noteq> CHR ''-''" "c \<noteq> CHR ''+''" "c \<noteq> CHR ''I''" "c \<noteq> CHR '':''"
    "c \<noteq> CHR ''.''"
  using assms by (auto simp: isDigit_def isWhiteSpace_def)

lemma digitsVal_snoc: "digitsVal (ds @ [c]) = 10 * digitsVal ds + digitVal c"
  by (simp add: digitsVal_def)

lemma digitsVal_append: "digitsVal (a @ b) = digitsVal a * 10 ^ length b + digitsVal b"
proof (induction b rule: rev_induct)
  case Nil
  show ?case by (simp add: digitsVal_def)
next
  case (snoc c b)
  have "digitsVal (a @ b @ [c]) = 10 * digitsVal (a @ b) + digitVal c"
    using digitsVal_snoc [of "a @ b" c] by simp
  also have "\<dots> = digitsVal a * 10 ^ length (b @ [c]) + digitsVal (b @ [c])"
    by (simp add: snoc digitsVal_snoc algebra_simps)
  finally show ?case .
qed

lemma isDigits_hd: "isDigits x \<Longrightarrow> isDigit (hd x)"
  by (cases x) (simp_all add: isDigits_def)

lemma isDigits_takeWhile: "isDigits x \<Longrightarrow> takeWhile isDigit x = x"
  by (simp add: isDigits_def list_all_iff)

lemma isDigits_dropWhile: "isDigits x \<Longrightarrow> dropWhile isDigit x = []"
  by (simp add: isDigits_def list_all_iff)

lemma dropWhile_space_digit: "x \<noteq> [] \<Longrightarrow> isDigit (hd x) \<Longrightarrow> dropWhile isWhiteSpace x = x"
  by (cases x) (simp_all add: digit_facts(1))

lemma takeSign_digit: "x \<noteq> [] \<Longrightarrow> isDigit (hd x) \<Longrightarrow> takeSign x = (False, x)"
  by (cases x) (auto simp: takeSign_def dest: digit_facts)

lemma parseInt_digits:
  assumes "isDigits x"
  shows "parseInt x = toNumber (of_nat (digitsVal x))"
proof -
  from assms have ne: "x \<noteq> []" and hd: "isDigit (hd x)"
    by (simp_all add: isDigits_def isDigits_hd)
  show ?thesis
    using ne by (simp add: parseInt_def dropWhile_space_digit [OF ne hd] takeSign_digit [OF ne hd]
        isDigits_takeWhile [OF assms])
qed

lemma isSeconds_cases:
  assumes "isSeconds x"
  shows "isDigits x \<or> (\<exists>i f. x = i @ CHR ''.'' # f \<and> isDigits i \<and> isDigits f)"
proof -
  define i where "i = takeWhile isDigit x"
  define r where "r = dropWhile isDigit x"
  have x: "x = i @ r" by (simp add: i_def r_def)
  have "\<forall>c \<in> set i. isDigit c" unfolding i_def by (metis set_takeWhileD)
  then have di: "list_all isDigit i" by (simp add: list_all_iff)
  from assms have ine: "i \<noteq> []" and rr: "r = [] \<or> (hd r = CHR ''.'' \<and> isDigits (tl r))"
    unfolding isSeconds_def Let_def i_def r_def by blast+
  from rr show ?thesis
  proof
    assume "r = []"
    with x ine di show ?thesis by (simp add: isDigits_def)
  next
    assume d: "hd r = CHR ''.'' \<and> isDigits (tl r)"
    then have "tl r \<noteq> []" by (simp add: isDigits_def)
    then have "r \<noteq> []" by auto
    with d have "r = CHR ''.'' # tl r" by (cases r) simp_all
    with x ine di d show ?thesis by (auto simp: isDigits_def)
  qed
qed

lemma digits_then_dot:
  assumes "isDigits i"
  shows "takeWhile isDigit (i @ CHR ''.'' # f) = i" "dropWhile isDigit (i @ CHR ''.'' # f) = CHR ''.'' # f"
proof -
  have a: "\<And>c. c \<in> set i \<Longrightarrow> isDigit c" using assms by (simp add: isDigits_def list_all_iff)
  have b: "\<not> isDigit (CHR ''.'')" by (simp add: isDigit_def)
  show "takeWhile isDigit (i @ CHR ''.'' # f) = i"
    using a b by (simp add: takeWhile_append2)
  show "dropWhile isDigit (i @ CHR ''.'' # f) = CHR ''.'' # f"
    using a b by (simp add: dropWhile_append2)
qed

lemma isSeconds_hd:
  assumes "isSeconds x"
  shows "x \<noteq> []" "isDigit (hd x)"
proof -
  from isSeconds_cases [OF assms] show "x \<noteq> []"
    by (auto simp: isDigits_def)
  from isSeconds_cases [OF assms] show "isDigit (hd x)"
  proof
    assume "isDigits x" then show ?thesis by (rule isDigits_hd)
  next
    assume "\<exists>i f. x = i @ CHR ''.'' # f \<and> isDigits i \<and> isDigits f"
    then obtain i f where x: "x = i @ CHR ''.'' # f" and i: "isDigits i" by blast
    from i have "i \<noteq> []" by (simp add: isDigits_def)
    then have "hd x = hd i" by (simp add: x)
    with isDigits_hd [OF i] show ?thesis by simp
  qed
qed

lemma parseFloat_start:
  assumes ne: "x \<noteq> []" and hd: "isDigit (hd x)"
  shows "parseFloat x =
      (let intPart = takeWhile isDigit x;
           r1 = dropWhile isDigit x;
           hasDot = (r1 \<noteq> [] \<and> hd r1 = CHR ''.'');
           fracPart = (if hasDot then takeWhile isDigit (tl r1) else []);
           r2 = (if hasDot then dropWhile isDigit (tl r1) else r1)
       in if intPart = [] \<and> fracPart = [] then NaN
          else toNumber (scale10 (of_nat (digitsVal (intPart @ fracPart)) / 10 ^ length fracPart)
                           (exponentOf r2)))"
proof -
  have inf: "take 8 x \<noteq> ''Infinity''"
    using ne hd digit_facts(4) by (cases x) auto
  show ?thesis
    unfolding parseFloat_def dropWhile_space_digit [OF ne hd] takeSign_digit [OF ne hd]
    using inf by (simp add: Let_def)
qed

lemma parseFloat_seconds:
  assumes "isSeconds x"
  shows "parseFloat x = toNumber (secondsValue x)"
proof -
  note st = parseFloat_start [OF isSeconds_hd [OF assms]]
  from isSeconds_cases [OF assms] show ?thesis
  proof
    assume d: "isDigits x"
    then have ne: "x \<noteq> []" by (simp add: isDigits_def)
    show ?thesis
      unfolding st secondsValue_def isDigits_takeWhile [OF d] isDigits_dropWhile [OF d]
      using ne by (simp add: exponentOf_def scale10_def digitsVal_def)
  next
    assume "\<exists>i f. x = i @ CHR ''.'' # f \<and> isDigits i \<and> isDigits f"
    then obtain i f where x: "x = i @ CHR ''.'' # f" and i: "isDigits i" and f: "isDigits f"
      by blast
    from i have ine: "i \<noteq> []" by (simp add: isDigits_def)
    have "of_nat (digitsVal (i @ f)) / (10 :: rat) ^ length f
            = of_nat (digitsVal i) + of_nat (digitsVal f) / 10 ^ length f"
      by (simp add: digitsVal_append add_divide_distrib)
    moreover have "parseFloat x
            = toNumber (scale10 (of_nat (digitsVal (i @ f)) / 10 ^ length f) (exponentOf []))"
      using st ine unfolding x digits_then_dot [OF i]
      by (simp add: Let_def isDigits_takeWhile [OF f] isDigits_dropWhile [OF f])
    moreover have "secondsValue x = of_nat (digitsVal i) + of_nat (digitsVal f) / 10 ^ length f"
      unfolding secondsValue_def x digits_then_dot [OF i] by (simp add: Let_def)
    ultimately show ?thesis
      by (simp add: exponentOf_def scale10_def)
  qed
qed

subsection \<open>Splitting\<close>

lemma splitOn_absent: "sep \<notin> set s \<Longrightarrow> splitOn sep s = [s]"
  by (subst splitOn.simps) (simp add: Let_def)

lemma splitOn_not_Nil: "splitOn sep s \<noteq> []"
  by (subst splitOn.simps) (simp add: Let_def)

lemma splitOn_single:
  assumes "splitOn sep s = [w]"
  shows "w = s"
proof (cases "sep \<in> set s")
  case False
  then have "splitOn sep s = [s]" by (rule splitOn_absent)
  with assms show ?thesis by simp
next
  case True
  define r where "r = dropWhile (\<lambda>c. c \<noteq> sep) s"
  from True have ne: "r \<noteq> []" unfolding r_def by auto
  have "splitOn sep s = (if r = [] then [takeWhile (\<lambda>c. c \<noteq> sep) s]
                         else takeWhile (\<lambda>c. c \<noteq> sep) s # splitOn sep (tl r))"
    unfolding r_def by (subst splitOn.simps) (simp only: Let_def)
  with ne assms have "[w] = takeWhile (\<lambda>c. c \<noteq> sep) s # splitOn sep (tl r)"
    by simp
  then have "splitOn sep (tl r) = []" by simp
  with splitOn_not_Nil show ?thesis by blast
qed

lemma splitOn_present:
  assumes "sep \<in> set s"
  shows "dropWhile (\<lambda>c. c \<noteq> sep) s \<noteq> []"
    and "splitOn sep s = takeWhile (\<lambda>c. c \<noteq> sep) s
                           # splitOn sep (tl (dropWhile (\<lambda>c. c \<noteq> sep) s))"
    and "s = takeWhile (\<lambda>c. c \<noteq> sep) s @ sep # tl (dropWhile (\<lambda>c. c \<noteq> sep) s)"
proof -
  define r where "r = dropWhile (\<lambda>c. c \<noteq> sep) s"
  from assms show ne: "dropWhile (\<lambda>c. c \<noteq> sep) s \<noteq> []" by auto
  then have rne: "r \<noteq> []" unfolding r_def .
  have "splitOn sep s = (if r = [] then [takeWhile (\<lambda>c. c \<noteq> sep) s]
                         else takeWhile (\<lambda>c. c \<noteq> sep) s # splitOn sep (tl r))"
    unfolding r_def by (subst splitOn.simps) (simp only: Let_def)
  with rne have "splitOn sep s = takeWhile (\<lambda>c. c \<noteq> sep) s # splitOn sep (tl r)"
    by simp
  then show "splitOn sep s = takeWhile (\<lambda>c. c \<noteq> sep) s
                           # splitOn sep (tl (dropWhile (\<lambda>c. c \<noteq> sep) s))"
    unfolding r_def .
  have "\<not> hd r \<noteq> sep" using rne unfolding r_def by (rule hd_dropWhile)
  then have "r = sep # tl r" using rne by (cases r) simp_all
  moreover have "s = takeWhile (\<lambda>c. c \<noteq> sep) s @ r" by (simp add: r_def)
  ultimately have "s = takeWhile (\<lambda>c. c \<noteq> sep) s @ sep # tl r" by simp
  then show "s = takeWhile (\<lambda>c. c \<noteq> sep) s @ sep # tl (dropWhile (\<lambda>c. c \<noteq> sep) s)"
    unfolding r_def .
qed

lemma set_splitOn: "set s \<subseteq> insert sep (\<Union> (set ` set (splitOn sep s)))"
proof (induction sep s rule: splitOn.induct)
  case (1 sep s)
  show ?case
  proof (cases "sep \<in> set s")
    case False
    then have "splitOn sep s = [s]" by (rule splitOn_absent)
    then show ?thesis by auto
  next
    case True
    define w where "w = takeWhile (\<lambda>c. c \<noteq> sep) s"
    define t where "t = tl (dropWhile (\<lambda>c. c \<noteq> sep) s)"
    note p = splitOn_present [OF True]
    have ih: "set t \<subseteq> insert sep (\<Union> (set ` set (splitOn sep t)))"
      unfolding t_def using p(1) by (rule 1 [OF refl refl])
    have sp: "splitOn sep s = w # splitOn sep t" using p(2) unfolding w_def t_def .
    have "s = w @ sep # t" using p(3) unfolding w_def t_def .
    then have "set s = set w \<union> insert sep (set t)"
      by (metis list.simps(15) set_append)
    with ih show ?thesis unfolding sp by auto
  qed
qed

lemma dropWhile_none: "\<forall>x \<in> set xs. \<not> P x \<Longrightarrow> dropWhile P xs = xs"
  by (cases xs) auto

lemma no_space_trim:
  assumes "\<forall>c \<in> set s. \<not> isWhiteSpace c"
  shows "trim s = s"
proof -
  have a: "dropWhile isWhiteSpace s = s" using assms by (rule dropWhile_none)
  have "\<forall>c \<in> set (rev s). \<not> isWhiteSpace c" using assms by simp
  then have b: "dropWhile isWhiteSpace (rev s) = rev s" by (rule dropWhile_none)
  show ?thesis unfolding trim_def a b by simp
qed

lemma isDigits_no_space: "isDigits x \<Longrightarrow> c \<in> set x \<Longrightarrow> \<not> isWhiteSpace c"
  by (auto simp: isDigits_def list_all_iff digit_facts(1))

lemma isSeconds_no_space:
  assumes "isSeconds x" and "c \<in> set x"
  shows "\<not> isWhiteSpace c"
proof -
  have dot: "\<not> isWhiteSpace (CHR ''.'')" by (simp add: isWhiteSpace_def)
  from isSeconds_cases [OF assms(1)] show ?thesis
  proof
    assume "isDigits x"
    then show ?thesis using assms(2) by (rule isDigits_no_space)
  next
    assume "\<exists>i f. x = i @ CHR ''.'' # f \<and> isDigits i \<and> isDigits f"
    then obtain i f where x: "x = i @ CHR ''.'' # f" and i: "isDigits i" and f: "isDigits f"
      by blast
    from assms(2) have "c \<in> set i \<or> c = CHR ''.'' \<or> c \<in> set f" by (auto simp: x)
    then show ?thesis
      using dot isDigits_no_space [OF i] isDigits_no_space [OF f] by blast
  qed
qed

lemma spec_format_trim:
  assumes "spec_format t"
  shows "trim t = t"
proof (rule no_space_trim, rule ballI)
  fix c assume c: "c \<in> set t"
  have parts: "\<forall>p \<in> set (splitOn (CHR '':'') t). isDigits p \<or> isSeconds p"
    using assms by (auto simp: spec_format_def split: list.splits)
  from c set_splitOn [of t "CHR '':''"]
  have "c = CHR '':'' \<or> (\<exists>p \<in> set (splitOn (CHR '':'') t). c \<in> set p)" by auto
  moreover have "\<not> isWhiteSpace (CHR '':'')" by (simp add: isWhiteSpace_def)
  ultimately show "\<not> isWhiteSpace c"
    using parts isDigits_no_space isSeconds_no_space by blast
qed

lemma parseTimestamp_format:
  assumes "spec_format t"
  shows "parseTimestamp t = spec_seconds t"
proof -
  from assms have ne: "t \<noteq> []"
    by (subst (asm) spec_format_def, subst (asm) splitOn.simps)
       (auto simp: Let_def isSeconds_def)
  note tr = spec_format_trim [OF assms]
  consider s where "splitOn (CHR '':'') t = [s]" "isSeconds s"
    | m s where "splitOn (CHR '':'') t = [m, s]" "isDigits m" "isSeconds s"
    | h m s where "splitOn (CHR '':'') t = [h, m, s]" "isDigits h" "isDigits m" "isSeconds s"
    using assms by (auto simp: spec_format_def split: list.splits)
  then show ?thesis
  proof cases
    case 1
    then have "s = t" using splitOn_single by blast
    with 1 ne show ?thesis
      by (simp add: parseTimestamp_def tr Let_def spec_seconds_def parseFloat_seconds
          jsOrZero_toNumber)
  next
    case 2
    with ne show ?thesis
      by (simp add: parseTimestamp_def tr Let_def spec_seconds_def parseFloat_seconds
          parseInt_digits)
  next
    case 3
    with ne show ?thesis
      by (simp add: parseTimestamp_def tr Let_def spec_seconds_def parseFloat_seconds
          parseInt_digits)
  qed
qed

lemma parseFloat_no_number:
  assumes "dropWhile isWhiteSpace t = [] \<or> hd (dropWhile isWhiteSpace t) \<notin> set ''0123456789+-.I''"
  shows "parseFloat t = NaN"
proof -
  define S where "S = dropWhile isWhiteSpace t"
  have a: "S = [] \<or> hd S \<notin> set ''0123456789+-.I''"
    using assms unfolding S_def .
  have sg: "takeSign S = (False, S)"
    using a by (cases S) (auto simp: takeSign_def)
  have inf: "take 8 S \<noteq> ''Infinity''"
    using a by (cases S) auto
  have dg: "takeWhile isDigit S = []"
    using a by (cases S) (auto simp: isDigit_def)
  have dd: "dropWhile isDigit S = S"
    using a by (cases S) (auto simp: isDigit_def)
  have dot: "\<not> (S \<noteq> [] \<and> hd S = CHR ''.'')"
    using a by auto
  have "parseFloat t =
      (let (neg, S') = takeSign S in
       if take 8 S' = ''Infinity'' then (if neg then NegInf else PosInf)
       else
         (let intPart = takeWhile isDigit S';
              r1 = dropWhile isDigit S';
              hasDot = (r1 \<noteq> [] \<and> hd r1 = CHR ''.'');
              fracPart = (if hasDot then takeWhile isDigit (tl r1) else []);
              r2 = (if hasDot then dropWhile isDigit (tl r1) else r1)
          in if intPart = [] \<and> fracPart = [] then NaN
             else
               (let mantissa = of_nat (digitsVal (intPart @ fracPart)) / 10 ^ length fracPart;
                    v = scale10 mantissa (exponentOf r2)
                in toNumber (if neg then - v else v))))"
    unfolding parseFloat_def S_def ..
  then show ?thesis
    using inf dot by (simp add: sg dg dd Let_def)
qed

lemma parseTimestamp_no_number:
  assumes "CHR '':'' \<notin> set t"
      and "dropWhile isWhiteSpace t = [] \<or> hd (dropWhile isWhiteSpace t) \<notin> set ''0123456789+-.I''"
  shows "parseTimestamp t = Fin 0"
proof -
  have "CHR '':'' \<notin> set (trim t)" using assms(1) set_trim by blast
  then have sp: "splitOn (CHR '':'') (trim t) = [trim t]" by (rule splitOn_absent)
  have pf: "parseFloat t = NaN" using assms(2) by (rule parseFloat_no_number)
  show ?thesis
    unfolding parseTimestamp_def sp pf Let_def by simp
qed

lemma digits_then_rest:
  assumes "isDigits i" and "rest = [] \<or> \<not> isDigit (hd rest)"
  shows "takeWhile isDigit (i @ rest) = i" "dropWhile isDigit (i @ rest) = rest"
proof -
  have a: "\<And>c. c \<in> set i \<Longrightarrow> isDigit c" using assms(1) by (simp add: isDigits_def list_all_iff)
  have t: "takeWhile isDigit rest = []" and d: "dropWhile isDigit rest = rest"
    using assms(2) by (cases rest; simp)+
  show "takeWhile isDigit (i @ rest) = i"
    using takeWhile_append2 [of i isDigit rest] a t by simp
  show "dropWhile isDigit (i @ rest) = rest"
    using dropWhile_append2 [of i isDigit rest] a d by simp
qed

lemma parseTimestamp_number_prefix:
  assumes ds: "isDigits ds" and nc: "CHR '':'' \<notin> set rest"
      and rest: "rest = [] \<or> hd rest \<notin> set ''0123456789.eE''"
  shows "parseTimestamp (ds @ rest) = toNumber (of_nat (digitsVal ds))"
proof -
  from ds have ne: "ds @ rest \<noteq> []" and dne: "ds \<noteq> []" by (simp_all add: isDigits_def)
  from dne have hd: "isDigit (hd (ds @ rest))" using isDigits_hd [OF ds] by simp
  have nd: "rest = [] \<or> \<not> isDigit (hd rest)"
    using rest by (auto simp: isDigit_def)
  have ex: "exponentOf rest = 0"
    using rest by (cases rest) (auto simp: exponentOf_def)
  have pf: "parseFloat (ds @ rest) = toNumber (of_nat (digitsVal ds))"
  proof (cases "rest = []")
    case True
    show ?thesis
      unfolding parseFloat_start [OF ne hd] digits_then_rest [OF ds nd]
      using dne True by (simp add: Let_def exponentOf_def scale10_def)
  next
    case False
    with rest have "hd rest \<noteq> CHR ''.''" by auto
    then show ?thesis
      unfolding parseFloat_start [OF ne hd] digits_then_rest [OF ds nd]
      using dne False by (simp add: Let_def ex scale10_def)
  qed
  have "CHR '':'' \<notin> set ds" using ds digit_facts(5) by (auto simp: isDigits_def list_all_iff)
  then have "CHR '':'' \<notin> set (ds @ rest)" using nc by simp
  then have "CHR '':'' \<notin> set (trim (ds @ rest))" using set_trim by blast
  then have sp: "splitOn (CHR '':'') (trim (ds @ rest)) = [trim (ds @ rest)]"
    by (rule splitOn_absent)
  show ?thesis
    unfolding parseTimestamp_def sp pf Let_def using dne by (simp add: jsOrZero_toNumber)
qed

lemma isSeconds_plain: "isDigits ss \<Longrightarrow> isSeconds ss"
  by (simp add: isSeconds_def Let_def isDigits_takeWhile isDigits_dropWhile)
     (simp add: isDigits_def)

lemma secondsValue_show:
  assumes "isDigits s"
  shows "secondsValue s = of_nat (digitsVal s)"
    and "isDigits f \<Longrightarrow> secondsValue (s @ CHR ''.'' # f)
                            = of_nat (digitsVal s) + of_nat (digitsVal f) / 10 ^ length f"
proof -
  show "secondsValue s = of_nat (digitsVal s)"
    unfolding secondsValue_def Let_def isDigits_takeWhile [OF assms] isDigits_dropWhile [OF assms]
    by (simp add: digitsVal_def)
  show "secondsValue (s @ CHR ''.'' # f)
          = of_nat (digitsVal s) + of_nat (digitsVal f) / 10 ^ length f"
    unfolding secondsValue_def Let_def digits_then_dot [OF assms] by simp
qed

lemma jsMul_nat:
  assumes "a * b < 2 ^ 53"
  shows "jsMul (Fin (of_nat a)) (Fin (of_nat b)) = Fin (of_nat (a * b))"
  using toNumber_of_nat [OF assms] by simp

lemma jsAdd_nat:
  assumes "a + b < 2 ^ 53"
  shows "jsAdd (Fin (of_nat a)) (Fin (of_nat b)) = Fin (of_nat (a + b))"
  using toNumber_of_nat [OF assms] by simp

lemma whole_value:
  assumes "isDigits x" and "digitsVal x < 2 ^ 53"
  shows "toNumber (of_nat (digitsVal x)) = Fin (of_nat (digitsVal x))"
    and "toNumber (secondsValue x) = Fin (of_nat (digitsVal x))"
  using toNumber_of_nat [OF assms(2)] secondsValue_show(1) [OF assms(1)] by simp_all

lemma parseTimestamp_whole:
  assumes w: "spec_whole t" and b: "spec_whole_seconds t < 2 ^ 53"
  shows "parseTimestamp t = Fin (of_nat (spec_whole_seconds t))"
proof -
  have f: "spec_format t"
    using w by (auto simp: spec_whole_def spec_format_def isSeconds_plain split: list.splits)
  then have p: "parseTimestamp t = spec_seconds t" by (rule parseTimestamp_format)
  consider s where "splitOn (CHR '':'') t = [s]" "isDigits s"
    | m s where "splitOn (CHR '':'') t = [m, s]" "isDigits m" "isDigits s"
    | h m s where "splitOn (CHR '':'') t = [h, m, s]" "isDigits h" "isDigits m" "isDigits s"
    using w by (auto simp: spec_whole_def split: list.splits)
  then show ?thesis
  proof cases
    case 1
    with b have "digitsVal s < 2 ^ 53" by (simp add: spec_whole_seconds_def)
    with 1 show ?thesis
      by (simp add: p spec_seconds_def spec_whole_seconds_def whole_value)
  next
    case 2
    from b 2 have t: "digitsVal m * 60 + digitsVal s < 2 ^ 53"
      by (simp add: spec_whole_seconds_def)
    then have bm: "digitsVal m < 2 ^ 53" and bs: "digitsVal s < 2 ^ 53"
      and bm60: "digitsVal m * 60 < 2 ^ 53"
      by simp_all
    have "jsMul (Fin (of_nat (digitsVal m))) (Fin (of_nat 60)) = Fin (of_nat (digitsVal m * 60))"
      using bm60 by (rule jsMul_nat)
    then have m60: "jsMul (Fin (of_nat (digitsVal m))) (Fin 60) = Fin (of_nat (digitsVal m * 60))"
      by simp
    show ?thesis
      unfolding p spec_seconds_def spec_whole_seconds_def 2(1) list.case
        whole_value(1) [OF 2(2) bm] whole_value(2) [OF 2(3) bs] m60
      using t by (rule jsAdd_nat)
  next
    case 3
    from b 3 have t: "digitsVal h * 3600 + digitsVal m * 60 + digitsVal s < 2 ^ 53"
      by (simp add: spec_whole_seconds_def)
    then have bh: "digitsVal h < 2 ^ 53" and bm: "digitsVal m < 2 ^ 53"
      and bs: "digitsVal s < 2 ^ 53"
      and bh3600: "digitsVal h * 3600 < 2 ^ 53" and bm60: "digitsVal m * 60 < 2 ^ 53"
      and bhm: "digitsVal h * 3600 + digitsVal m * 60 < 2 ^ 53"
      by simp_all
    have "jsMul (Fin (of_nat (digitsVal h))) (Fin (of_nat 3600))
            = Fin (of_nat (digitsVal h * 3600))"
      using bh3600 by (rule jsMul_nat)
    then have h3600: "jsMul (Fin (of_nat (digitsVal h))) (Fin 3600)
                        = Fin (of_nat (digitsVal h * 3600))"
      by simp
    have "jsMul (Fin (of_nat (digitsVal m))) (Fin (of_nat 60)) = Fin (of_nat (digitsVal m * 60))"
      using bm60 by (rule jsMul_nat)
    then have m60: "jsMul (Fin (of_nat (digitsVal m))) (Fin 60) = Fin (of_nat (digitsVal m * 60))"
      by simp
    have hm: "jsAdd (Fin (of_nat (digitsVal h * 3600))) (Fin (of_nat (digitsVal m * 60)))
                = Fin (of_nat (digitsVal h * 3600 + digitsVal m * 60))"
      using bhm by (rule jsAdd_nat)
    show ?thesis
      unfolding p spec_seconds_def spec_whole_seconds_def 3(1) list.case
        whole_value(1) [OF 3(2) bh] whole_value(1) [OF 3(3) bm] whole_value(2) [OF 3(4) bs]
        h3600 m60 hm
      using t by (rule jsAdd_nat)
  qed
qed

subsection \<open>Timestamps\<close>

lemmas timestamp_eval = parseTimestamp_def splitOn.simps trim_def isWhiteSpace_def parseInt_def
  parseFloat_def takeSign_def isDigit_def digitsVal_def digitVal_def exponentOf_def scale10_def
  number_eval

lemmas format_eval = spec_format_def spec_seconds_def splitOn.simps isSeconds_def isDigits_def
  secondsValue_def isDigit_def digitsVal_def digitVal_def number_eval

text \<open>
  C8, as amended. A timestamp in one of the three formats \<open>SS[.mmm]\<close>, \<open>MM:SS[.mmm]\<close>,
  \<open>H:MM:SS[.mmm]\<close> is mapped to \<open>hours * 3600 + minutes * 60 + seconds\<close>, computed in
  doubles as the language does; without a fraction, and below \<open>2 ^ 53\<close>, this is the exact
  number of seconds. An input without a colon that does not begin, after leading
  whitespace, with a digit, a sign, a dot or the letter I is mapped to 0. An input without a
  colon that is a digit string followed by anything that does not continue the number (no
  digit, dot or exponent letter) is mapped to the number the digits form (rounded to a
  double, which changes nothing below \<open>2 ^ 53\<close>). \<open>01:05.500\<close> gives 65.5, \<open>1:02:03.250\<close>
  gives 3723.25 and \<open>garbage\<close> gives 0; \<open>01:01.029\<close> gives 61.028999999999996, the double
  sum of 60 and 1.029. The function is total: it never throws.
\<close>

theorem parseTimestamp_spec:
  "(spec_format t \<longrightarrow> parseTimestamp t = spec_seconds t)
   \<and> (spec_whole w \<and> spec_whole_seconds w < 2 ^ 53
       \<longrightarrow> parseTimestamp w = Fin (of_nat (spec_whole_seconds w)))
   \<and> (CHR '':'' \<notin> set u
        \<and> (dropWhile isWhiteSpace u = []
             \<or> hd (dropWhile isWhiteSpace u) \<notin> set ''0123456789+-.I'')
       \<longrightarrow> parseTimestamp u = Fin 0)
   \<and> (isDigits ds \<and> CHR '':'' \<notin> set rest
        \<and> (rest = [] \<or> hd rest \<notin> set ''0123456789.eE'')
       \<longrightarrow> parseTimestamp (ds @ rest) = toNumber (of_nat (digitsVal ds)))
   \<and> (n < 2 ^ 53 \<longrightarrow> toNumber (of_nat n) = Fin (of_nat n))
   \<and> parseTimestamp ''01:05.500'' = Fin (131 / 2)
   \<and> parseTimestamp ''1:02:03.250'' = Fin (14893 / 4)
   \<and> parseTimestamp ''garbage'' = Fin 0
   \<and> parseTimestamp ''01:01.029'' = Fin (134204190263083 / 2199023255552)"
proof -
  have a: "spec_format t \<longrightarrow> parseTimestamp t = spec_seconds t"
    using parseTimestamp_format by blast
  have wh: "spec_whole w \<and> spec_whole_seconds w < 2 ^ 53
       \<longrightarrow> parseTimestamp w = Fin (of_nat (spec_whole_seconds w))"
    using parseTimestamp_whole by blast
  have b: "CHR '':'' \<notin> set u
        \<and> (dropWhile isWhiteSpace u = []
             \<or> hd (dropWhile isWhiteSpace u) \<notin> set ''0123456789+-.I'')
       \<longrightarrow> parseTimestamp u = Fin 0"
    using parseTimestamp_no_number by blast
  have p: "isDigits ds \<and> CHR '':'' \<notin> set rest
        \<and> (rest = [] \<or> hd rest \<notin> set ''0123456789.eE'')
       \<longrightarrow> parseTimestamp (ds @ rest) = toNumber (of_nat (digitsVal ds))"
    using parseTimestamp_number_prefix by blast
  have x: "n < 2 ^ 53 \<longrightarrow> toNumber (of_nat n) = Fin (of_nat n)"
    using toNumber_of_nat by blast
  have c: "parseTimestamp ''01:05.500'' = Fin (131 / 2)"
    by (simp add: timestamp_eval)
  have d: "parseTimestamp ''1:02:03.250'' = Fin (14893 / 4)"
    by (simp add: timestamp_eval)
  have e: "parseTimestamp ''garbage'' = Fin 0"
    by (simp add: timestamp_eval)
  have f: "parseTimestamp ''01:01.029'' = Fin (134204190263083 / 2199023255552)"
    by (simp add: timestamp_eval)
  from a wh b p x c d e f show ?thesis by (intro conjI)
qed

theorem parseTimestamp_spec_witness:
  "spec_format ''01:05.500''
   \<and> spec_seconds ''01:05.500'' = Fin (131 / 2)
   \<and> parseTimestamp ''01:05.500'' = spec_seconds ''01:05.500''
   \<and> spec_format ''1:02:03.250''
   \<and> spec_seconds ''1:02:03.250'' = Fin (14893 / 4)
   \<and> parseTimestamp ''1:02:03.250'' = spec_seconds ''1:02:03.250''
   \<and> parseTimestamp '' hello'' = Fin 0
   \<and> parseTimestamp (''7'' @ '' up'') = Fin 7
   \<and> spec_whole ''1:02:03''
   \<and> parseTimestamp ''1:02:03'' = Fin 3723"
proof -
  have f1: "spec_format ''01:05.500''" and v1: "spec_seconds ''01:05.500'' = Fin (131 / 2)"
    and f2: "spec_format ''1:02:03.250''"
    and v2: "spec_seconds ''1:02:03.250'' = Fin (14893 / 4)"
    by (simp_all add: format_eval)
  have g: "CHR '':'' \<notin> set '' hello''
        \<and> (dropWhile isWhiteSpace '' hello'' = []
             \<or> hd (dropWhile isWhiteSpace '' hello'') \<notin> set ''0123456789+-.I'')"
    by (simp add: isWhiteSpace_def)
  have h: "isDigits ''7'' \<and> CHR '':'' \<notin> set '' up''
        \<and> ('' up'' = [] \<or> hd '' up'' \<notin> set ''0123456789.eE'')"
    and hv: "digitsVal ''7'' = 7"
    by (simp_all add: isDigits_def isDigit_def digitsVal_def digitVal_def)
  have small: "(7 :: nat) < 2 ^ 53" by simp
  have wh: "spec_whole ''1:02:03''" and wv: "spec_whole_seconds ''1:02:03'' = 3723"
    by (simp_all add: spec_whole_def spec_whole_seconds_def splitOn.simps isDigits_def isDigit_def
        digitsVal_def digitVal_def Let_def)
  note th1 = parseTimestamp_spec [where t = "''01:05.500''" and w = "''1:02:03''"
      and u = "'' hello''" and ds = "''7''" and rest = "'' up''" and n = 7]
  note th2 = parseTimestamp_spec [where t = "''1:02:03.250''" and w = "''1:02:03''"
      and u = "'' hello''" and ds = "''7''" and rest = "'' up''" and n = 7]
  from th1 f1 have r1: "parseTimestamp ''01:05.500'' = spec_seconds ''01:05.500''"
    by blast
  from th1 g have r2: "parseTimestamp '' hello'' = Fin 0"
    by blast
  from th1 h have r3: "parseTimestamp (''7'' @ '' up'') = toNumber (of_nat (digitsVal ''7''))"
    by blast
  from th1 small have r4: "toNumber (of_nat 7) = Fin (of_nat 7)"
    by blast
  from th2 f2 have r5: "parseTimestamp ''1:02:03.250'' = spec_seconds ''1:02:03.250''"
    by blast
  from r3 r4 have r6: "parseTimestamp (''7'' @ '' up'') = Fin 7"
    by (simp add: hv)
  from th1 wh have "parseTimestamp ''1:02:03'' = Fin (of_nat (spec_whole_seconds ''1:02:03''))"
    by (simp add: wv)
  then have r7: "parseTimestamp ''1:02:03'' = Fin 3723"
    by (simp add: wv)
  from f1 v1 r1 f2 v2 r5 r2 r6 wh r7 show ?thesis by (intro conjI)
qed

text \<open>
  The claim as first stated fails: \<open>12abc\<close> is in none of the three formats, yet it is
  read as 12, because \<open>parseFloat\<close> reads the longest numeric prefix and ignores the rest.
\<close>

theorem parseTimestamp_counterexample:
  "\<not> spec_format ''12abc'' \<and> parseTimestamp ''12abc'' = Fin 12 \<and> Fin 12 \<noteq> Fin 0"
  by (simp add: timestamp_eval format_eval)

text \<open>
  Beside it: with a colon and no digits the missing \<open>|| 0\<close> shows, the result is \<open>NaN\<close>.
\<close>

lemma parseTimestamp_colon_garbage: "parseTimestamp ''x:y'' = NaN"
  by (simp add: timestamp_eval)

section \<open>Transcript parser (services/geminiService, src/unnamed/part_000)\<close>

text \<open>
  The line pattern is
  \<open>/\[(\d{1,2}:\d{2}(?:\.\d{1,3})?) -> (\d{1,2}:\d{2}(?:\.\d{1,3})?)\] (.*?)(?: \| (.*))?$/\<close>.
  It has no \<open>^\<close>, so \<open>match\<close> tries every start position from the left. A dot matches
  every character but a line terminator; \<open>$\<close> is the end of the input.
\<close>

definition isLineTerminator :: "char \<Rightarrow> bool" where
  "isLineTerminator c = (c = CHR 0x0A \<or> c = CHR 0x0D)"

text \<open>
  \<open>\d{1,2}:\d{2}(?:\.\d{1,3})?\<close> at the head of \<open>s\<close>: the matched text and the rest. Each
  piece is followed by a literal that is no digit, so a shorter alternative never succeeds
  where the longest one fails.
\<close>

definition matchTimestamp :: "string \<Rightarrow> (string \<times> string) option" where
  "matchTimestamp s =
     (let m = takeWhile isDigit s; r0 = dropWhile isDigit s in
      if (length m = 1 \<or> length m = 2) \<and> r0 \<noteq> [] \<and> hd r0 = CHR '':'' then
        (let ss = take 2 (tl r0); r2 = drop 2 (tl r0) in
         if length ss = 2 \<and> list_all isDigit ss then
           (if r2 \<noteq> [] \<and> hd r2 = CHR ''.'' then
              (let f = takeWhile isDigit (tl r2); r3 = dropWhile isDigit (tl r2) in
               if 1 \<le> length f \<and> length f \<le> 3
               then Some (m @ '':'' @ ss @ ''.'' @ f, r3)
               else None)
            else Some (m @ '':'' @ ss, r2))
         else None)
      else None)"

text \<open>
  \<open>(.*?)(?: \| (.*))?$\<close>: the lazy group grows one character at a time; at each length the
  optional group is tried first and matches when the rest is \<open> | \<close> followed by no line
  terminator up to the end; without it the end must have been reached.
\<close>

fun matchTail :: "string \<Rightarrow> string \<Rightarrow> (string \<times> string option) option" where
  "matchTail acc [] = Some (acc, None)"
| "matchTail acc (c # cs) =
     (if take 3 (c # cs) = '' | '' \<and> list_all (\<lambda>x. \<not> isLineTerminator x) (drop 3 (c # cs))
      then Some (acc, Some (drop 3 (c # cs)))
      else if isLineTerminator c then None
      else matchTail (acc @ [c]) cs)"

record line_match =
  g1 :: string
  g2 :: string
  g3 :: string
  g4 :: "string option"

text \<open>The whole pattern anchored at the head of \<open>s\<close>.\<close>

definition matchHere :: "string \<Rightarrow> line_match option" where
  "matchHere s =
     (if s = [] \<or> hd s \<noteq> CHR ''['' then None
      else
        (case matchTimestamp (tl s) of
           None \<Rightarrow> None
         | Some (startStr, r1) \<Rightarrow>
             if take 4 r1 \<noteq> '' -> '' then None
             else
               (case matchTimestamp (drop 4 r1) of
                  None \<Rightarrow> None
                | Some (endStr, r2) \<Rightarrow>
                    if take 2 r2 \<noteq> ''] '' then None
                    else
                      (case matchTail [] (drop 2 r2) of
                         None \<Rightarrow> None
                       | Some (txt, tr) \<Rightarrow>
                           Some \<lparr>g1 = startStr, g2 = endStr, g3 = txt, g4 = tr\<rparr>))))"

text \<open>\<open>line.match(lineRegex)\<close>: the leftmost start position at which the pattern matches.\<close>

fun matchLine :: "string \<Rightarrow> line_match option" where
  "matchLine [] = None"
| "matchLine (c # cs) =
     (case matchHere (c # cs) of
        Some m \<Rightarrow> Some m
      | None \<Rightarrow> matchLine cs)"

text \<open>
  The body of the \<open>forEach\<close> callback: the segment pushed for line \<open>index\<close>, if any.
  \<open>now\<close> is the clock read in the id.
\<close>

definition parseLine :: "int \<Rightarrow> nat \<Rightarrow> string \<Rightarrow> segment option" where
  "parseLine now index line =
     (case matchLine (trim line) of
        None \<Rightarrow> None
      | Some m \<Rightarrow>
          (let startStr = g1 m;
               endStr = g2 m;
               textContent = trim (g3 m);
               translationContent =
                 (case g4 m of None \<Rightarrow> [] | Some t \<Rightarrow> if t = [] then [] else trim t)
           in if textContent \<noteq> [] then
                Some \<lparr>seg_ident = SegId index now,
                      seg_text = textContent,
                      seg_translation = translationContent,
                      seg_start = parseTimestamp startStr,
                      seg_end = parseTimestamp endStr\<rparr>
              else None))"

text \<open>\<open>lines.forEach((line, index) => ...)\<close>; \<open>clock i\<close> is the clock read at line \<open>i\<close>.\<close>

fun forEachLine :: "(nat \<Rightarrow> int) \<Rightarrow> nat \<Rightarrow> string list \<Rightarrow> segment list \<Rightarrow> segment list" where
  "forEachLine clock index [] segs = segs"
| "forEachLine clock index (line # lines) segs =
     forEachLine clock (index + 1) lines
       (case parseLine (clock index) index line of
          None \<Rightarrow> segs
        | Some seg \<Rightarrow> segs @ [seg])"

text \<open>\<open>s.includes(sub)\<close>.\<close>

fun str_includes :: "string \<Rightarrow> string \<Rightarrow> bool" where
  "str_includes [] sub = (sub = [])"
| "str_includes (c # cs) sub = (take (length sub) (c # cs) = sub \<or> str_includes cs sub)"

text \<open>
  What can be thrown at \<open>handleApiError\<close>: an \<open>Error\<close> with its message; an object with an
  \<open>error\<close> member (its code, status and message, and the JSON text of the member); another
  object (its JSON text); anything else. The function always throws; its value here is the
  message of the \<open>Error\<close> it throws.
\<close>

datatype thrown =
    JsError string
  | ApiObject "int option" "string option" "string option" string
  | OtherObject string
  | Primitive

definition handleApiError :: "thrown \<Rightarrow> string \<Rightarrow> string" where
  "handleApiError error context =
     (let (message, isQuota) =
            (case error of
               JsError msg \<Rightarrow>
                 (msg, str_includes msg ''429'' \<or> str_includes (toLowerCase msg) ''quota''
                       \<or> str_includes msg ''RESOURCE_EXHAUSTED'')
             | ApiObject code status emsg json \<Rightarrow>
                 ((case emsg of None \<Rightarrow> json | Some m \<Rightarrow> if m = [] then json else m),
                  code = Some 429 \<or> status = Some ''RESOURCE_EXHAUSTED'')
             | OtherObject json \<Rightarrow>
                 (json, str_includes json ''429'' \<or> str_includes json ''RESOURCE_EXHAUSTED'')
             | Primitive \<Rightarrow> (''An unknown error occurred.'', False))
      in if isQuota then
           ''API Quota Exceeded (429). The free plan limit has been reached. Please wait a moment or update your API Key in Settings.''
         else ''Failed to '' @ context @ '': '' @ message)"

text \<open>
  The outcome of the awaited calls (reading the file, the oracle): something thrown, or a
  response with its optional text. \<open>USE_MOCK_DATA\<close> is the constant \<open>false\<close>. The result of
  \<open>transcribeAudio\<close> is the message of the rejection (\<open>Inl\<close>) or the segments (\<open>Inr\<close>).
\<close>

datatype io_outcome = Threw thrown | Replied "string option"

definition transcribeAudio :: "string \<Rightarrow> (nat \<Rightarrow> int) \<Rightarrow> io_outcome \<Rightarrow> string + segment list" where
  "transcribeAudio apiKey clock outcome =
     (if apiKey = [] then
        Inl (handleApiError
               (JsError ''API Key is missing. Please click the Settings icon and enter your Google Gemini API Key.'')
               ''transcribe audio'')
      else
        (case outcome of
           Threw e \<Rightarrow> Inl (handleApiError e ''transcribe audio'')
         | Replied txt \<Rightarrow>
             (let rawText = (case txt of None \<Rightarrow> [] | Some t \<Rightarrow> t);
                  segs = forEachLine clock 0 (splitOn (CHR 0x0A) rawText) []
              in if length segs = 0 then
                   Inl (handleApiError
                          (JsError ''Could not parse audio. The AI response was empty or malformed.'')
                          ''transcribe audio'')
                 else Inr segs)))"

section \<open>Upload flow (src/App.tsx)\<close>

datatype AppStep = UPLOAD | REVIEW | PRACTICE | COMPLETED

datatype AppTab = DASHBOARD | PRACTICE_NEW | PRACTICE_SESSION | VOCABULARY

text \<open>The audio file is known by its name.\<close>

record app =
  activeTab :: AppTab
  currentStep :: AppStep
  app_segments :: "segment list"
  audioFile :: "string option"
  audioUrl :: "string option"
  currentArticleId :: "string option"
  resumeIndex :: nat
  isProcessing :: bool
  errorMsg :: "string option"
  showSettings :: bool

text \<open>\<open>outcome\<close> is what \<open>await transcribeAudio(file)\<close> gave.\<close>

definition handleFileSelect :: "string \<Rightarrow> string \<Rightarrow> string + segment list \<Rightarrow> app \<Rightarrow> app" where
  "handleFileSelect file url outcome a =
     (let a1 = a\<lparr>audioFile := Some file, audioUrl := Some url, isProcessing := True,
                 errorMsg := None\<rparr>
      in case outcome of
           Inr result \<Rightarrow>
             a1\<lparr>app_segments := result, currentStep := REVIEW, isProcessing := False\<rparr>
         | Inl message \<Rightarrow>
             (let msg = (if message = [] then ''An unexpected error occurred.'' else message);
                  a2 = a1\<lparr>errorMsg := Some msg\<rparr>;
                  a3 = (if str_includes msg ''API Key'' \<or> str_includes msg ''429'' \<or> str_includes msg ''Quota''
                        then a2\<lparr>showSettings := True\<rparr> else a2)
              in a3\<lparr>audioFile := None, isProcessing := False\<rparr>))"

text \<open>\<open>name.replace(/\.[^/.]+$/, "")\<close>.\<close>

definition removeExtension :: "string \<Rightarrow> string" where
  "removeExtension name =
     (let ext = takeWhile (\<lambda>c. c \<noteq> CHR ''.'') (rev name) in
      if CHR ''.'' \<in> set name \<and> ext \<noteq> [] \<and> CHR ''/'' \<notin> set ext
      then rev (tl (dropWhile (\<lambda>c. c \<noteq> CHR ''.'') (rev name)))
      else name)"

text \<open>
  The only place that creates an article. \<open>uuid\<close> is \<open>crypto.randomUUID()\<close>; \<open>t1\<close>, \<open>t2\<close>
  are the clock reads for \<open>createdAt\<close> and \<open>nextReview\<close>.
\<close>

definition handleReviewConfirm ::
  "string \<Rightarrow> int \<Rightarrow> int \<Rightarrow> segment list \<Rightarrow> app \<Rightarrow> world \<Rightarrow> app \<times> world" where
  "handleReviewConfirm uuid t1 t2 updatedSegments a w =
     (let a1 = a\<lparr>app_segments := updatedSegments\<rparr> in
      case audioFile a of
        Some file \<Rightarrow>
          (let newArticle =
                 \<lparr>article_id = uuid, title = removeExtension file, createdAt = t1,
                  lastPracticed = None, nextReview = t2, stage = 0,
                  segments = updatedSegments, currentSegmentIndex = 0,
                  audioBlob = Some file\<rparr>
           in (a1\<lparr>currentArticleId := Some uuid, resumeIndex := 0, currentStep := PRACTICE\<rparr>,
               saveArticle newArticle w))
      | None \<Rightarrow> (a1\<lparr>currentStep := PRACTICE\<rparr>, w))"

section \<open>Properties of the transcript parser\<close>

definition segIndex :: "segment \<Rightarrow> nat" where
  "segIndex s = (case seg_ident s of SegId i stamp \<Rightarrow> i)"

definition demo_raw :: string where
  "demo_raw = ''[00:00.000 -> 00:02.500] Hello everyone. | Xin chao.'' @ [CHR 0x0A]
            @ ''[00:02.500 -> 00:05.100] Welcome to the lesson.''"

definition demo_app :: app where
  "demo_app =
     \<lparr>activeTab = PRACTICE_NEW, currentStep = UPLOAD, app_segments = [], audioFile = None,
      audioUrl = None, currentArticleId = None, resumeIndex = 0, isProcessing = False,
      errorMsg = None, showSettings = False\<rparr>"

lemma forEachLine_closed:
  "forEachLine clock k lines segs
     = segs @ List.map_filter (\<lambda>(i, l). parseLine (clock i) i l) (enumerate k lines)"
  by (induction lines arbitrary: k segs) (simp_all add: map_filter_simps split: option.splits)

lemma map_filter_all_None:
  "(\<And>x. x \<in> set xs \<Longrightarrow> f x = None) \<Longrightarrow> List.map_filter f xs = []"
  by (induction xs) (simp_all add: map_filter_simps)

lemma parseLine_None: "matchLine (trim line) = None \<Longrightarrow> parseLine now i line = None"
  by (simp add: parseLine_def)

lemma parseLine_empty_text:
  "matchLine (trim line) = Some m \<Longrightarrow> trim (g3 m) = [] \<Longrightarrow> parseLine now i line = None"
  by (simp add: parseLine_def Let_def)

lemma parseLine_Some:
  assumes "matchLine (trim line) = Some m" and "trim (g3 m) \<noteq> []"
  shows "parseLine now i line =
           Some \<lparr>seg_ident = SegId i now, seg_text = trim (g3 m),
                 seg_translation = (case g4 m of None \<Rightarrow> [] | Some t \<Rightarrow> trim t),
                 seg_start = parseTimestamp (g1 m), seg_end = parseTimestamp (g2 m)\<rparr>"
proof -
  have "(case g4 m of None \<Rightarrow> [] | Some t \<Rightarrow> if t = [] then [] else trim t)
          = (case g4 m of None \<Rightarrow> [] | Some t \<Rightarrow> trim t)"
    by (simp add: trim_def split: option.splits)
  with assms show ?thesis by (simp add: parseLine_def Let_def)
qed

lemma parseLine_index: "parseLine now i line = Some s \<Longrightarrow> segIndex s = i"
  by (auto simp: parseLine_def Let_def segIndex_def split: option.splits if_splits)

lemma forEachLine_none:
  assumes "\<forall>line \<in> set lines. matchLine (trim line) = None"
  shows "forEachLine clock k lines [] = []"
proof -
  have "\<And>x. x \<in> set (enumerate k lines) \<Longrightarrow> (\<lambda>(i, l). parseLine (clock i) i l) x = None"
    using assms by (auto simp: in_set_enumerate_eq parseLine_None)
  then show ?thesis
    unfolding forEachLine_closed by (simp add: map_filter_all_None)
qed

lemma forEachLine_indices:
  "sorted_wrt (<) (map segIndex (forEachLine clock k lines []))
   \<and> (\<forall>s \<in> set (forEachLine clock k lines []). k \<le> segIndex s)"
proof (induction lines arbitrary: k)
  case Nil
  show ?case by simp
next
  case (Cons l lines)
  have rest: "forEachLine clock (Suc k) lines []
                = List.map_filter (\<lambda>(i, l). parseLine (clock i) i l) (enumerate (Suc k) lines)"
    by (simp add: forEachLine_closed)
  have all: "forEachLine clock k (l # lines) []
               = (case parseLine (clock k) k l of None \<Rightarrow> [] | Some s \<Rightarrow> [s])
                 @ forEachLine clock (Suc k) lines []"
    by (simp add: forEachLine_closed map_filter_simps split: option.splits)
  from Cons [of "Suc k"] have srt: "sorted_wrt (<) (map segIndex (forEachLine clock (Suc k) lines []))"
    and lb: "\<forall>s \<in> set (forEachLine clock (Suc k) lines []). Suc k \<le> segIndex s"
    by simp_all
  show ?case
  proof (cases "parseLine (clock k) k l")
    case None
    with srt lb show ?thesis unfolding all by auto
  next
    case (Some s)
    then have "segIndex s = k" by (rule parseLine_index)
    with Some srt lb show ?thesis unfolding all by auto
  qed
qed

lemma parse_failure_message:
  "handleApiError (JsError ''Could not parse audio. The AI response was empty or malformed.'')
       ''transcribe audio''
     = ''Failed to transcribe audio: Could not parse audio. The AI response was empty or malformed.''"
  by code_simp

lemma parse_failure_no_settings:
  "\<not> (str_includes ''Failed to transcribe audio: Could not parse audio. The AI response was empty or malformed.'' ''API Key''
       \<or> str_includes ''Failed to transcribe audio: Could not parse audio. The AI response was empty or malformed.'' ''429''
       \<or> str_includes ''Failed to transcribe audio: Could not parse audio. The AI response was empty or malformed.'' ''Quota'')"
  by code_simp

lemma transcribeAudio_not_empty: "transcribeAudio apiKey clock outcome \<noteq> Inr []"
  by (simp add: transcribeAudio_def Let_def split: io_outcome.splits)

lemma splitOn_length: "0 < length (splitOn sep s)"
  using splitOn_not_Nil [of sep s] by simp

subsection \<open>Matched timestamps are well-formed\<close>

lemma isDigits_takeWhile_self:
  "takeWhile isDigit s \<noteq> [] \<Longrightarrow> isDigits (takeWhile isDigit s)"
  unfolding isDigits_def list_all_iff by (metis set_takeWhileD)

lemma splitOn_two:
  assumes "CHR '':'' \<notin> set m" and "CHR '':'' \<notin> set rest"
  shows "splitOn (CHR '':'') (m @ CHR '':'' # rest) = [m, rest]"
proof -
  have in_s: "CHR '':'' \<in> set (m @ CHR '':'' # rest)" by simp
  have nm: "\<And>x. x \<in> set m \<Longrightarrow> x \<noteq> CHR '':''" using assms(1) by auto
  have tw: "takeWhile (\<lambda>c. c \<noteq> CHR '':'') (m @ CHR '':'' # rest) = m"
    using takeWhile_append2 [of m "\<lambda>c. c \<noteq> CHR '':''" "CHR '':'' # rest"] nm by simp
  have dw: "dropWhile (\<lambda>c. c \<noteq> CHR '':'') (m @ CHR '':'' # rest) = CHR '':'' # rest"
    using dropWhile_append2 [of m "\<lambda>c. c \<noteq> CHR '':''" "CHR '':'' # rest"] nm by simp
  show ?thesis
    using splitOn_present(2) [OF in_s] splitOn_absent [OF assms(2)]
    unfolding tw dw by simp
qed

lemma isDigits_no_colon: "isDigits x \<Longrightarrow> CHR '':'' \<notin> set x"
  using digit_facts(5) by (auto simp: isDigits_def list_all_iff)

lemma isSeconds_frac: "isDigits ss \<Longrightarrow> isDigits f \<Longrightarrow> isSeconds (ss @ CHR ''.'' # f)"
  by (simp add: isSeconds_def Let_def digits_then_dot) (simp add: isDigits_def)

lemma format_mmss:
  assumes "isDigits m" and "isDigits ss"
  shows "spec_format (m @ CHR '':'' # ss)"
    and "isDigits f \<Longrightarrow> spec_format (m @ CHR '':'' # ss @ CHR ''.'' # f)"
proof -
  note nc = isDigits_no_colon
  show "spec_format (m @ CHR '':'' # ss)"
    unfolding spec_format_def splitOn_two [OF nc [OF assms(1)] nc [OF assms(2)]]
    using assms by (simp add: isSeconds_plain)
  assume f: "isDigits f"
  have nf: "CHR '':'' \<notin> set (ss @ CHR ''.'' # f)"
    using nc [OF assms(2)] nc [OF f] by simp
  show "spec_format (m @ CHR '':'' # ss @ CHR ''.'' # f)"
    unfolding spec_format_def splitOn_two [OF nc [OF assms(1)] nf]
    using assms f by (simp add: isSeconds_frac)
qed

lemma matchTimestamp_format:
  assumes "matchTimestamp s = Some (ts, r)"
  shows "spec_format ts"
proof -
  define m where "m = takeWhile isDigit s"
  define r0 where "r0 = dropWhile isDigit s"
  define ss where "ss = take 2 (tl r0)"
  define r2 where "r2 = drop 2 (tl r0)"
  define f where "f = takeWhile isDigit (tl r2)"
  define r3 where "r3 = dropWhile isDigit (tl r2)"
  have eq: "matchTimestamp s =
      (if (length m = 1 \<or> length m = 2) \<and> r0 \<noteq> [] \<and> hd r0 = CHR '':'' then
         (if length ss = 2 \<and> list_all isDigit ss then
            (if r2 \<noteq> [] \<and> hd r2 = CHR ''.'' then
               (if 1 \<le> length f \<and> length f \<le> 3
                then Some (m @ '':'' @ ss @ ''.'' @ f, r3)
                else None)
             else Some (m @ '':'' @ ss, r2))
          else None)
       else None)"
    unfolding matchTimestamp_def Let_def m_def r0_def ss_def r2_def f_def r3_def ..
  from assms eq have c1: "length m = 1 \<or> length m = 2" and c2: "length ss = 2 \<and> list_all isDigit ss"
    by (auto split: if_splits)
  from c1 have "m \<noteq> []" by auto
  then have dm: "isDigits m" unfolding m_def by (rule isDigits_takeWhile_self)
  from c2 have dss: "isDigits ss" by (auto simp: isDigits_def)
  show ?thesis
  proof (cases "r2 \<noteq> [] \<and> hd r2 = CHR ''.''")
    case True
    with assms eq c1 c2 have fl: "1 \<le> length f" and ts: "ts = m @ '':'' @ ss @ ''.'' @ f"
      by (auto split: if_splits)
    from fl have "f \<noteq> []" by auto
    then have "isDigits f" unfolding f_def by (rule isDigits_takeWhile_self)
    with format_mmss(2) [OF dm dss] show ?thesis by (simp add: ts)
  next
    case False
    with assms eq c1 c2 have ts: "ts = m @ '':'' @ ss"
      by (auto split: if_splits)
    with format_mmss(1) [OF dm dss] show ?thesis by simp
  qed
qed

lemma matchHere_format:
  assumes "matchHere s = Some m"
  shows "spec_format (g1 m) \<and> spec_format (g2 m)"
proof -
  from assms obtain r1 r2
    where a: "matchTimestamp (tl s) = Some (g1 m, r1)"
      and b: "matchTimestamp (drop 4 r1) = Some (g2 m, r2)"
    unfolding matchHere_def
    by (auto split: if_splits option.splits prod.splits)
  from a b show ?thesis by (simp add: matchTimestamp_format)
qed

lemma matchLine_format:
  "matchLine s = Some m \<Longrightarrow> spec_format (g1 m) \<and> spec_format (g2 m)"
proof (induction s)
  case Nil
  then show ?case by simp
next
  case (Cons c cs)
  show ?case
  proof (cases "matchHere (c # cs)")
    case None
    with Cons show ?thesis by simp
  next
    case (Some m')
    with Cons.prems have "m' = m" by simp
    with Some show ?thesis using matchHere_format by blast
  qed
qed

subsection \<open>Empty and well-formed responses\<close>

text \<open>
  C6. With an API key and a response none of whose lines matches the line pattern,
  \<open>transcribeAudio\<close> rejects with the error \<open>Failed to transcribe audio: Could not parse
  audio. The AI response was empty or malformed.\<close>; it never returns an empty segment
  list, whatever the inputs. \<open>handleFileSelect\<close> then records the message, clears the
  processing flag and the audio file and leaves the step, the segments and the settings flag
  as they were; it has no access to the store, and a review confirmation from the resulting
  state would store nothing, since the audio file is gone.
\<close>

theorem transcribeAudio_empty:
  assumes "apiKey \<noteq> []"
      and "\<forall>line \<in> set (splitOn (CHR 0x0A) rawText). matchLine (trim line) = None"
  shows "transcribeAudio apiKey clock (Replied (Some rawText))
           = Inl ''Failed to transcribe audio: Could not parse audio. The AI response was empty or malformed.''
       \<and> transcribeAudio apiKey' clock' outcome \<noteq> Inr []
       \<and> handleFileSelect file url (transcribeAudio apiKey clock (Replied (Some rawText))) a
           = a\<lparr>audioFile := None, audioUrl := Some url, isProcessing := False,
               errorMsg := Some ''Failed to transcribe audio: Could not parse audio. The AI response was empty or malformed.''\<rparr>
       \<and> snd (handleReviewConfirm uuid t1 t2 segs
                (handleFileSelect file url (transcribeAudio apiKey clock (Replied (Some rawText))) a)
                w) = w"
proof -
  let ?msg = "''Failed to transcribe audio: Could not parse audio. The AI response was empty or malformed.''"
  have none: "forEachLine clock 0 (splitOn (CHR 0x0A) rawText) [] = []"
    using assms(2) by (rule forEachLine_none)
  have t: "transcribeAudio apiKey clock (Replied (Some rawText)) = Inl ?msg"
    using assms(1) by (simp add: transcribeAudio_def Let_def none parse_failure_message)
  have h: "handleFileSelect file url (Inl ?msg) a
           = a\<lparr>audioFile := None, audioUrl := Some url, isProcessing := False,
               errorMsg := Some ?msg\<rparr>"
    using parse_failure_no_settings by (simp add: handleFileSelect_def Let_def)
  have r: "snd (handleReviewConfirm uuid t1 t2 segs
                  (a\<lparr>audioFile := None, audioUrl := Some url, isProcessing := False,
                     errorMsg := Some ?msg\<rparr>) w) = w"
    by (simp add: handleReviewConfirm_def Let_def)
  from t h r transcribeAudio_not_empty [of apiKey' clock' outcome] show ?thesis
    by (simp only: simp_thms)
qed

theorem transcribeAudio_empty_witness:
  "transcribeAudio ''key'' (\<lambda>i. 0) (Replied (Some ''Sorry, no speech found.''))
     = Inl ''Failed to transcribe audio: Could not parse audio. The AI response was empty or malformed.''
   \<and> handleFileSelect ''talk.mp3'' ''blob:1''
         (transcribeAudio ''key'' (\<lambda>i. 0) (Replied (Some ''Sorry, no speech found.''))) demo_app
     = demo_app\<lparr>audioUrl := Some ''blob:1'',
         errorMsg := Some ''Failed to transcribe audio: Could not parse audio. The AI response was empty or malformed.''\<rparr>"
proof -
  have k: "''key'' \<noteq> []" by simp
  have l: "\<forall>line \<in> set (splitOn (CHR 0x0A) ''Sorry, no speech found.'').
             matchLine (trim line) = None"
    by code_simp
  note th = transcribeAudio_empty [OF k l, of "\<lambda>i. 0" "''key''" "\<lambda>i. 0" "Replied None"
      "''talk.mp3''" "''blob:1''" demo_app "''u''" 0 0 "[]" demo_world]
  from th have a: "transcribeAudio ''key'' (\<lambda>i. 0) (Replied (Some ''Sorry, no speech found.''))
     = Inl ''Failed to transcribe audio: Could not parse audio. The AI response was empty or malformed.''"
    by (rule conjunct1)
  from th have b: "handleFileSelect ''talk.mp3'' ''blob:1''
         (transcribeAudio ''key'' (\<lambda>i. 0) (Replied (Some ''Sorry, no speech found.''))) demo_app
     = demo_app\<lparr>audioFile := None, audioUrl := Some ''blob:1'', isProcessing := False,
         errorMsg := Some ''Failed to transcribe audio: Could not parse audio. The AI response was empty or malformed.''\<rparr>"
    by blast
  have c: "demo_app\<lparr>audioFile := None, audioUrl := Some ''blob:1'', isProcessing := False,
         errorMsg := Some ''Failed to transcribe audio: Could not parse audio. The AI response was empty or malformed.''\<rparr>
     = demo_app\<lparr>audioUrl := Some ''blob:1'',
         errorMsg := Some ''Failed to transcribe audio: Could not parse audio. The AI response was empty or malformed.''\<rparr>"
    by (simp add: demo_app_def)
  from a b c show ?thesis by simp
qed

subsection \<open>Well-formed lines, as the specification words them\<close>

text \<open>
  These definitions follow the specification and the line format that the prompt asks for
  (\<open>[MM:SS.mmm -> MM:SS.mmm] text | translation\<close>), not the parsing code. A line is
  \<open>[start -> end] text\<close>, or \<open>[start -> end] text | translation\<close>. A timestamp is one or
  two digits of minutes, a colon, two digits of seconds and, optionally, a dot and one to
  three digits; its value is \<open>minutes * 60 + seconds\<close> in the arithmetic of the language.
  Text and translation each have a character that is not whitespace and no line break, and
  the text has no \<open>|\<close>. \<open>spec_lineText\<close> writes a line out and \<open>spec_segment\<close> is the
  segment it stands for. An entry of a response is such a line, or nothing for a line
  without \<open>[\<close>.
\<close>

datatype spec_stamp = Stamp string string "string option"

fun spec_stampText :: "spec_stamp \<Rightarrow> string" where
  "spec_stampText (Stamp m s None) = m @ '':'' @ s"
| "spec_stampText (Stamp m s (Some f)) = m @ '':'' @ s @ ''.'' @ f"

fun spec_stampOk :: "spec_stamp \<Rightarrow> bool" where
  "spec_stampOk (Stamp m s fr) =
     (isDigits m \<and> length m \<le> 2 \<and> isDigits s \<and> length s = 2
      \<and> (case fr of None \<Rightarrow> True | Some f \<Rightarrow> isDigits f \<and> length f \<le> 3))"

fun spec_stampSeconds :: "spec_stamp \<Rightarrow> jsnum" where
  "spec_stampSeconds (Stamp m s fr) =
     jsAdd (jsMul (toNumber (of_nat (digitsVal m))) (Fin 60))
           (toNumber (of_nat (digitsVal s)
                      + (case fr of None \<Rightarrow> 0 | Some f \<Rightarrow> of_nat (digitsVal f) / 10 ^ length f)))"

datatype spec_line = TLine spec_stamp spec_stamp string "string option"

definition spec_content :: "string \<Rightarrow> bool" where
  "spec_content x =
     (list_ex (\<lambda>c. \<not> isWhiteSpace c) x \<and> list_all (\<lambda>c. \<not> isLineTerminator c) x)"

fun spec_lineText :: "spec_line \<Rightarrow> string" where
  "spec_lineText (TLine a b t None) = ''['' @ spec_stampText a @ '' -> '' @ spec_stampText b @ ''] '' @ t"
| "spec_lineText (TLine a b t (Some tr)) =
     ''['' @ spec_stampText a @ '' -> '' @ spec_stampText b @ ''] '' @ t @ '' | '' @ tr"

fun spec_lineOk :: "spec_line \<Rightarrow> bool" where
  "spec_lineOk (TLine a b t tr) =
     (spec_stampOk a \<and> spec_stampOk b \<and> spec_content t \<and> CHR ''|'' \<notin> set t
      \<and> (case tr of None \<Rightarrow> True | Some x \<Rightarrow> spec_content x))"

fun spec_segment :: "int \<Rightarrow> nat \<Rightarrow> spec_line \<Rightarrow> segment" where
  "spec_segment now index (TLine a b t tr) =
     \<lparr>seg_ident = SegId index now,
      seg_text = trim t,
      seg_translation = (case tr of None \<Rightarrow> [] | Some x \<Rightarrow> trim x),
      seg_start = spec_stampSeconds a,
      seg_end = spec_stampSeconds b\<rparr>"

text \<open>
  A line of the response against an entry: up to the whitespace around it, the line is the
  well-formed line of the entry; or the entry is nothing and the line has no \<open>[\<close>.
\<close>

fun spec_lineIs :: "string \<Rightarrow> spec_line option \<Rightarrow> bool" where
  "spec_lineIs line None = (CHR ''['' \<notin> set line)"
| "spec_lineIs line (Some l) = (spec_lineOk l \<and> trim line = spec_lineText l)"

definition spec_segments :: "(nat \<Rightarrow> int) \<Rightarrow> spec_line option list \<Rightarrow> segment list" where
  "spec_segments clock entries =
     List.map_filter (\<lambda>(i, e). map_option (spec_segment (clock i) i) e) (enumerate 0 entries)"

subsection \<open>The pattern accepts the well-formed lines\<close>

lemma matchTimestamp_show:
  assumes wf: "spec_stampOk st" and r: "r = [] \<or> (\<not> isDigit (hd r) \<and> hd r \<noteq> CHR ''.'')"
  shows "matchTimestamp (spec_stampText st @ r) = Some (spec_stampText st, r)"
proof -
  obtain m s fr where st: "st = Stamp m s fr" by (cases st)
  from wf have dm: "isDigits m" and lm: "length m \<le> 2" and ds: "isDigits s" and ls: "length s = 2"
    by (simp_all add: st)
  from dm have "m \<noteq> []" by (simp add: isDigits_def)
  then have "0 < length m" by simp
  with lm have lm1: "length m = 1 \<or> length m = 2" by arith
  from ds have as: "list_all isDigit s" by (simp add: isDigits_def)
  have nd: "\<not> isDigit (CHR '':'')" by (simp add: isDigit_def)
  have rd: "r = [] \<or> \<not> isDigit (hd r)" using r by blast
  show ?thesis
  proof (cases fr)
    case None
    define X where "X = CHR '':'' # s @ r"
    have x: "X = [] \<or> \<not> isDigit (hd X)" using nd by (simp add: X_def)
    have tw: "takeWhile isDigit (m @ X) = m" and dw: "dropWhile isDigit (m @ X) = X"
      using digits_then_rest [OF dm x] by simp_all
    have all: "spec_stampText st @ r = m @ X" by (simp add: st None X_def)
    have t2: "take 2 (tl X) = s" and d2: "drop 2 (tl X) = r" using ls by (simp_all add: X_def)
    have nodot: "\<not> (r \<noteq> [] \<and> hd r = CHR ''.'')" using r by blast
    have "matchTimestamp (m @ X) = Some (m @ '':'' @ s, r)"
      unfolding matchTimestamp_def Let_def tw dw t2 d2
      using lm1 ls as nodot by (simp add: X_def)
    then show ?thesis by (simp add: all) (simp add: st None)
  next
    case (Some f)
    with wf have df: "isDigits f" and lf: "length f \<le> 3" by (simp_all add: st)
    from df have lf1: "1 \<le> length f" by (cases f) (simp_all add: isDigits_def)
    define X where "X = CHR '':'' # s @ CHR ''.'' # f @ r"
    have x: "X = [] \<or> \<not> isDigit (hd X)" using nd by (simp add: X_def)
    have tw: "takeWhile isDigit (m @ X) = m" and dw: "dropWhile isDigit (m @ X) = X"
      using digits_then_rest [OF dm x] by simp_all
    have all: "spec_stampText st @ r = m @ X" by (simp add: st Some X_def)
    have t2: "take 2 (tl X) = s" and d2: "drop 2 (tl X) = CHR ''.'' # f @ r"
      using ls by (simp_all add: X_def)
    have fw: "takeWhile isDigit (f @ r) = f" and fd: "dropWhile isDigit (f @ r) = r"
      using digits_then_rest [OF df rd] by simp_all
    have "matchTimestamp (m @ X) = Some (m @ '':'' @ s @ ''.'' @ f, r)"
      unfolding matchTimestamp_def Let_def tw dw t2 d2
      using lm1 ls as lf lf1 by (simp add: X_def fw fd)
    then show ?thesis by (simp add: all) (simp add: st Some)
  qed
qed

lemma matchTail_text:
  assumes "CHR ''|'' \<notin> set t" and "list_all (\<lambda>c. \<not> isLineTerminator c) t"
  shows "matchTail acc t = Some (acc @ t, None)"
    and "list_all (\<lambda>c. \<not> isLineTerminator c) x
           \<Longrightarrow> matchTail acc (t @ '' | '' @ x) = Some (acc @ t, Some x)"
proof -
  show "matchTail acc t = Some (acc @ t, None)"
    using assms
  proof (induction t arbitrary: acc)
    case Nil
    then show ?case by simp
  next
    case (Cons c cs)
    have "take 3 (c # cs) \<noteq> '' | ''"
    proof
      assume "take 3 (c # cs) = '' | ''"
      then have "CHR ''|'' \<in> set (take 3 (c # cs))" by simp
      then have "CHR ''|'' \<in> set (c # cs)" by (rule in_set_takeD)
      with Cons.prems(1) show False by simp
    qed
    then have nt: "\<not> (take 3 (c # cs) = '' | ''
                      \<and> list_all (\<lambda>x. \<not> isLineTerminator x) (drop 3 (c # cs)))"
      by blast
    have nl: "\<not> isLineTerminator c" using Cons.prems(2) by simp
    have step: "matchTail acc (c # cs) = matchTail (acc @ [c]) cs"
      by (simp only: matchTail.simps nt nl if_False)
    have "matchTail (acc @ [c]) cs = Some ((acc @ [c]) @ cs, None)"
      using Cons.prems by (intro Cons.IH) simp_all
    with step show ?case by simp
  qed
  assume x: "list_all (\<lambda>c. \<not> isLineTerminator c) x"
  show "matchTail acc (t @ '' | '' @ x) = Some (acc @ t, Some x)"
    using assms
  proof (induction t arbitrary: acc)
    case Nil
    show ?case using x by simp
  next
    case (Cons c cs)
    define rest where "rest = cs @ '' | '' @ x"
    have "hd rest \<noteq> CHR ''|''"
      using Cons.prems(1) unfolding rest_def by (cases cs) auto
    moreover have "rest \<noteq> []" by (simp add: rest_def)
    ultimately have "take 3 (c # rest) \<noteq> '' | ''"
      by (cases rest) auto
    then have nt: "\<not> (take 3 (c # rest) = '' | ''
                      \<and> list_all (\<lambda>x. \<not> isLineTerminator x) (drop 3 (c # rest)))"
      by blast
    have nl: "\<not> isLineTerminator c" using Cons.prems(2) by simp
    have step: "matchTail acc (c # rest) = matchTail (acc @ [c]) rest"
      by (simp only: matchTail.simps nt nl if_False)
    have "matchTail (acc @ [c]) (cs @ '' | '' @ x) = Some ((acc @ [c]) @ cs, Some x)"
      using Cons.prems by (intro Cons.IH) simp_all
    with step show ?case by (simp add: rest_def)
  qed
qed

lemma spec_content_parts:
  assumes "spec_content x"
  shows "list_all (\<lambda>c. \<not> isLineTerminator c) x" and "trim x \<noteq> []"
proof -
  from assms show "list_all (\<lambda>c. \<not> isLineTerminator c) x" by (simp add: spec_content_def)
  from assms obtain c where c: "c \<in> set x" "\<not> isWhiteSpace c"
    by (auto simp: spec_content_def list_ex_iff)
  define d where "d = dropWhile isWhiteSpace x"
  have dne: "d \<noteq> []"
  proof
    assume "d = []"
    then have "\<forall>y \<in> set x. isWhiteSpace y" unfolding d_def by (simp add: dropWhile_eq_Nil_conv)
    with c show False by blast
  qed
  then have "\<not> isWhiteSpace (hd d)" unfolding d_def by (rule hd_dropWhile)
  moreover have "hd d \<in> set (rev d)" using dne by simp
  ultimately have "dropWhile isWhiteSpace (rev d) \<noteq> []"
    by (metis dropWhile_eq_Nil_conv)
  then show "trim x \<noteq> []" by (simp add: trim_def d_def)
qed

lemma matchHere_show:
  assumes "spec_lineOk (TLine a b t tr)"
  shows "matchHere (spec_lineText (TLine a b t tr))
           = Some \<lparr>g1 = spec_stampText a, g2 = spec_stampText b, g3 = t, g4 = tr\<rparr>"
proof -
  from assms have wa: "spec_stampOk a" and wb: "spec_stampOk b" and ct: "spec_content t"
    and np: "CHR ''|'' \<notin> set t"
    by simp_all
  note lt = spec_content_parts(1) [OF ct]
  define body where "body = t @ (case tr of None \<Rightarrow> [] | Some x \<Rightarrow> '' | '' @ x)"
  define r2 where "r2 = ''] '' @ body"
  define r1 where "r1 = '' -> '' @ spec_stampText b @ r2"
  have line: "spec_lineText (TLine a b t tr) = CHR ''['' # spec_stampText a @ r1"
    by (cases tr) (simp_all add: body_def r1_def r2_def)
  have tail: "matchTail [] body = Some (t, tr)"
  proof (cases tr)
    case None
    then show ?thesis using matchTail_text(1) [OF np lt, of "[]"] by (simp add: body_def)
  next
    case (Some x)
    with assms have "spec_content x" by simp
    then have "list_all (\<lambda>c. \<not> isLineTerminator c) x" by (rule spec_content_parts(1))
    then show ?thesis
      using matchTail_text(2) [OF np lt, of x "[]"] by (simp add: body_def Some)
  qed
  have ra: "r1 = [] \<or> (\<not> isDigit (hd r1) \<and> hd r1 \<noteq> CHR ''.'')"
    by (simp add: r1_def isDigit_def)
  have rb: "r2 = [] \<or> (\<not> isDigit (hd r2) \<and> hd r2 \<noteq> CHR ''.'')"
    by (simp add: r2_def isDigit_def)
  have m1: "matchTimestamp (spec_stampText a @ r1) = Some (spec_stampText a, r1)"
    using wa ra by (rule matchTimestamp_show)
  have m2: "matchTimestamp (spec_stampText b @ r2) = Some (spec_stampText b, r2)"
    using wb rb by (rule matchTimestamp_show)
  have t4: "take 4 r1 = '' -> ''" and d4: "drop 4 r1 = spec_stampText b @ r2"
    by (simp_all add: r1_def)
  have t2: "take 2 r2 = ''] ''" and d2: "drop 2 r2 = body"
    by (simp_all add: r2_def)
  show ?thesis
    unfolding line matchHere_def by (simp add: m1 t4 d4 m2 t2 d2 tail)
qed

lemma matchLine_show:
  assumes "spec_lineOk l"
  shows "\<exists>a b t tr. l = TLine a b t tr
           \<and> matchLine (spec_lineText l) = Some \<lparr>g1 = spec_stampText a, g2 = spec_stampText b, g3 = t, g4 = tr\<rparr>"
proof -
  obtain a b t tr where l: "l = TLine a b t tr" by (cases l)
  have ne: "spec_lineText l = CHR ''['' # tl (spec_lineText l)"
    by (cases tr) (simp_all add: l)
  have "matchHere (spec_lineText l) = Some \<lparr>g1 = spec_stampText a, g2 = spec_stampText b, g3 = t, g4 = tr\<rparr>"
    using assms unfolding l by (rule matchHere_show)
  then have "matchLine (spec_lineText l)
               = Some \<lparr>g1 = spec_stampText a, g2 = spec_stampText b, g3 = t, g4 = tr\<rparr>"
    by (subst ne, subst matchLine.simps, subst ne [symmetric]) simp
  with l show ?thesis by blast
qed

lemma parseTimestamp_show:
  assumes "spec_stampOk st"
  shows "parseTimestamp (spec_stampText st) = spec_stampSeconds st"
proof -
  obtain m s fr where st: "st = Stamp m s fr" by (cases st)
  from assms have dm: "isDigits m" and ds: "isDigits s" by (simp_all add: st)
  note nc = isDigits_no_colon
  show ?thesis
  proof (cases fr)
    case None
    have sp: "splitOn (CHR '':'') (m @ CHR '':'' # s) = [m, s]"
      using nc [OF dm] nc [OF ds] by (rule splitOn_two)
    have "parseTimestamp (m @ CHR '':'' # s) = spec_seconds (m @ CHR '':'' # s)"
      using format_mmss(1) [OF dm ds] by (rule parseTimestamp_format)
    then show ?thesis
      by (simp add: st None spec_seconds_def sp secondsValue_show(1) [OF ds])
  next
    case (Some f)
    with assms have df: "isDigits f" by (simp add: st)
    have nf: "CHR '':'' \<notin> set (s @ CHR ''.'' # f)" using nc [OF ds] nc [OF df] by simp
    have sp: "splitOn (CHR '':'') (m @ CHR '':'' # s @ CHR ''.'' # f) = [m, s @ CHR ''.'' # f]"
      using nc [OF dm] nf by (rule splitOn_two)
    have "parseTimestamp (m @ CHR '':'' # s @ CHR ''.'' # f)
            = spec_seconds (m @ CHR '':'' # s @ CHR ''.'' # f)"
      using format_mmss(2) [OF dm ds df] by (rule parseTimestamp_format)
    then show ?thesis
      by (simp add: st Some spec_seconds_def sp secondsValue_show(2) [OF ds df])
  qed
qed

lemma parseLine_show:
  assumes wf: "spec_lineOk l" and line: "trim line = spec_lineText l"
  shows "parseLine now i line = Some (spec_segment now i l)"
proof -
  from matchLine_show [OF wf] obtain a b t tr where l: "l = TLine a b t tr"
    and m: "matchLine (spec_lineText l) = Some \<lparr>g1 = spec_stampText a, g2 = spec_stampText b, g3 = t, g4 = tr\<rparr>"
    by blast
  from wf have wa: "spec_stampOk a" and wb: "spec_stampOk b" and ct: "spec_content t" by (simp_all add: l)
  have tt: "trim (g3 \<lparr>g1 = spec_stampText a, g2 = spec_stampText b, g3 = t, g4 = tr\<rparr>) \<noteq> []"
    using spec_content_parts(2) [OF ct] by simp
  have m': "matchLine (trim line)
              = Some \<lparr>g1 = spec_stampText a, g2 = spec_stampText b, g3 = t, g4 = tr\<rparr>"
    using m by (simp add: line)
  show ?thesis
    using parseLine_Some [OF m' tt, of now i]
    by (simp add: l parseTimestamp_show [OF wa] parseTimestamp_show [OF wb])
qed

lemma matchLine_no_bracket: "CHR ''['' \<notin> set s \<Longrightarrow> matchLine s = None"
  by (induction s) (auto simp: matchHere_def)

lemma parseLine_no_bracket:
  assumes "CHR ''['' \<notin> set line"
  shows "parseLine now i line = None"
proof -
  have "CHR ''['' \<notin> set (trim line)" using assms set_trim by blast
  then have "matchLine (trim line) = None" by (rule matchLine_no_bracket)
  then show ?thesis by (rule parseLine_None)
qed

lemma parseLine_entry:
  "spec_lineIs line e \<Longrightarrow> parseLine now i line = map_option (spec_segment now i) e"
  by (cases e) (simp_all add: parseLine_no_bracket parseLine_show)

lemma map_filter_entries:
  assumes "list_all2 spec_lineIs lines entries"
  shows "List.map_filter (\<lambda>(i, l). parseLine (clock i) i l) (enumerate k lines)
           = List.map_filter (\<lambda>(i, e). map_option (spec_segment (clock i) i) e) (enumerate k entries)"
  using assms
proof (induction arbitrary: k rule: list_all2_induct)
  case Nil
  show ?case by (simp add: map_filter_simps)
next
  case (Cons line lines e entries)
  from Cons.hyps(1) have "parseLine (clock k) k line = map_option (spec_segment (clock k) k) e"
    by (rule parseLine_entry)
  with Cons.IH [of "Suc k"] show ?case by (cases e) (simp_all add: map_filter_simps)
qed

lemma map_filter_entries_Nil:
  "List.map_filter (\<lambda>(i, e). map_option (spec_segment (clock i) i) e) (enumerate k entries) = []
     \<longleftrightarrow> list_all (\<lambda>e. e = None) entries"
  by (induction entries arbitrary: k) (auto simp: map_filter_simps split: option.splits)

lemma map_filter_entries_Some:
  "List.map_filter (\<lambda>(i, e). map_option (spec_segment (clock i) i) e) (enumerate k (map Some items))
     = map (\<lambda>(i, l). spec_segment (clock i) i l) (enumerate k items)"
  by (induction items arbitrary: k) (simp_all add: map_filter_simps)

lemma transcribeAudio_entries:
  assumes "apiKey \<noteq> []" and "list_all2 spec_lineIs (splitOn (CHR 0x0A) rawText) entries"
  shows "transcribeAudio apiKey clock (Replied (Some rawText))
           = (if list_all (\<lambda>e. e = None) entries
              then Inl ''Failed to transcribe audio: Could not parse audio. The AI response was empty or malformed.''
              else Inr (spec_segments clock entries))"
proof -
  have segs: "forEachLine clock 0 (splitOn (CHR 0x0A) rawText) [] = spec_segments clock entries"
    unfolding forEachLine_closed spec_segments_def
    using map_filter_entries [OF assms(2), of clock 0] by simp
  have nil: "spec_segments clock entries = [] \<longleftrightarrow> list_all (\<lambda>e. e = None) entries"
    unfolding spec_segments_def by (rule map_filter_entries_Nil)
  show ?thesis
  proof (cases "list_all (\<lambda>e. e = None) entries")
    case True
    with nil have "spec_segments clock entries = []" by simp
    with True assms(1) show ?thesis
      by (simp add: transcribeAudio_def Let_def segs parse_failure_message)
  next
    case False
    with nil have "spec_segments clock entries \<noteq> []" by simp
    with False assms(1) show ?thesis
      by (simp add: transcribeAudio_def Let_def segs)
  qed
qed

subsection \<open>Well-formed responses\<close>

text \<open>
  C7, as amended. Take a response with an API key, each of whose lines is, up to the
  whitespace around it, either a well-formed line, \<open>[start -> end] text\<close> with an optional
  \<open> | translation\<close>, timestamps of the form \<open>M:SS\<close> or \<open>MM:SS\<close> with an optional fraction of
  one to three digits, a text with a visible character and no \<open>|\<close>, a translation with a
  visible character, or a line without \<open>[\<close>. The result has exactly one segment for each
  well-formed line, in line order: the segment of line \<open>i\<close> carries the id of line index \<open>i\<close>,
  the trimmed text and translation, and start and end are \<open>minutes * 60 + seconds\<close> of its
  two timestamps. The other lines contribute nothing; only when no line is well-formed is
  the call rejected. When every line is well-formed there are as many segments as lines. For
  every response, the line indices of the segments increase strictly; a line that the
  pattern does not match, or matches with empty text, contributes nothing, and a line that it
  matches with a text gives the segment of the matched parts, whose timestamps are in the
  format \<open>MM:SS[.mmm]\<close>.
\<close>

theorem transcribeAudio_wellformed:
  assumes "apiKey \<noteq> []"
      and "list_all2 spec_lineIs (splitOn (CHR 0x0A) rawText) entries"
  shows "transcribeAudio apiKey clock (Replied (Some rawText))
           = (if list_all (\<lambda>e. e = None) entries
              then Inl ''Failed to transcribe audio: Could not parse audio. The AI response was empty or malformed.''
              else Inr (spec_segments clock entries))
       \<and> (entries = map Some items \<longrightarrow>
            transcribeAudio apiKey clock (Replied (Some rawText))
              = Inr (map (\<lambda>(i, l). spec_segment (clock i) i l) (enumerate 0 items))
            \<and> length items = length (splitOn (CHR 0x0A) rawText))
       \<and> forEachLine clock 0 lines []
           = List.map_filter (\<lambda>(i, l). parseLine (clock i) i l) (enumerate 0 lines)
       \<and> sorted_wrt (<) (map segIndex (forEachLine clock 0 lines []))
       \<and> (matchLine (trim line) = None \<longrightarrow> parseLine now k line = None)
       \<and> (\<forall>m. matchLine (trim line) = Some m \<and> trim (g3 m) = [] \<longrightarrow> parseLine now k line = None)
       \<and> (\<forall>m. matchLine (trim line) = Some m \<and> trim (g3 m) \<noteq> [] \<longrightarrow>
              spec_format (g1 m) \<and> spec_format (g2 m)
              \<and> parseLine now k line =
                    Some \<lparr>seg_ident = SegId k now, seg_text = trim (g3 m),
                          seg_translation = (case g4 m of None \<Rightarrow> [] | Some t \<Rightarrow> trim t),
                          seg_start = spec_seconds (g1 m), seg_end = spec_seconds (g2 m)\<rparr>)"
proof -
  note main = transcribeAudio_entries [OF assms, of clock]
  have all: "entries = map Some items \<longrightarrow>
            transcribeAudio apiKey clock (Replied (Some rawText))
              = Inr (map (\<lambda>(i, l). spec_segment (clock i) i l) (enumerate 0 items))
            \<and> length items = length (splitOn (CHR 0x0A) rawText)"
  proof
    assume e: "entries = map Some items"
    from assms(2) have len: "length (splitOn (CHR 0x0A) rawText) = length entries"
      by (rule list_all2_lengthD)
    with e have li: "length items = length (splitOn (CHR 0x0A) rawText)" by simp
    with splitOn_length [of "CHR 0x0A" rawText] have "items \<noteq> []" by auto
    then have "\<not> list_all (\<lambda>e. e = None) entries" by (cases items) (simp_all add: e)
    with main have "transcribeAudio apiKey clock (Replied (Some rawText))
                      = Inr (spec_segments clock entries)"
      by simp
    also have "spec_segments clock entries
                 = map (\<lambda>(i, l). spec_segment (clock i) i l) (enumerate 0 items)"
      unfolding spec_segments_def e by (rule map_filter_entries_Some)
    finally show "transcribeAudio apiKey clock (Replied (Some rawText))
              = Inr (map (\<lambda>(i, l). spec_segment (clock i) i l) (enumerate 0 items))
            \<and> length items = length (splitOn (CHR 0x0A) rawText)"
      using li by simp
  qed
  have closed: "forEachLine clock 0 lines []
           = List.map_filter (\<lambda>(i, l). parseLine (clock i) i l) (enumerate 0 lines)"
    by (simp add: forEachLine_closed)
  have srt: "sorted_wrt (<) (map segIndex (forEachLine clock 0 lines []))"
    using forEachLine_indices [of clock 0 lines] by blast
  have skip1: "matchLine (trim line) = None \<longrightarrow> parseLine now k line = None"
    using parseLine_None by blast
  have skip2: "\<forall>m. matchLine (trim line) = Some m \<and> trim (g3 m) = [] \<longrightarrow> parseLine now k line = None"
    using parseLine_empty_text by blast
  have made: "\<forall>m. matchLine (trim line) = Some m \<and> trim (g3 m) \<noteq> [] \<longrightarrow>
              spec_format (g1 m) \<and> spec_format (g2 m)
              \<and> parseLine now k line =
                    Some \<lparr>seg_ident = SegId k now, seg_text = trim (g3 m),
                          seg_translation = (case g4 m of None \<Rightarrow> [] | Some t \<Rightarrow> trim t),
                          seg_start = spec_seconds (g1 m), seg_end = spec_seconds (g2 m)\<rparr>"
  proof (intro allI impI)
    fix m assume m: "matchLine (trim line) = Some m \<and> trim (g3 m) \<noteq> []"
    then have fm: "spec_format (g1 m)" "spec_format (g2 m)"
      using matchLine_format by blast+
    have "parseLine now k line =
            Some \<lparr>seg_ident = SegId k now, seg_text = trim (g3 m),
                  seg_translation = (case g4 m of None \<Rightarrow> [] | Some t \<Rightarrow> trim t),
                  seg_start = parseTimestamp (g1 m), seg_end = parseTimestamp (g2 m)\<rparr>"
      using m parseLine_Some by blast
    with fm show "spec_format (g1 m) \<and> spec_format (g2 m)
              \<and> parseLine now k line =
                    Some \<lparr>seg_ident = SegId k now, seg_text = trim (g3 m),
                          seg_translation = (case g4 m of None \<Rightarrow> [] | Some t \<Rightarrow> trim t),
                          seg_start = spec_seconds (g1 m), seg_end = spec_seconds (g2 m)\<rparr>"
      by (simp add: parseTimestamp_format)
  qed
  from main all closed srt skip1 skip2 made show ?thesis by (intro conjI)
qed

definition demo_lines :: "spec_line list" where
  "demo_lines =
     [TLine (Stamp ''00'' ''00'' (Some ''000'')) (Stamp ''00'' ''02'' (Some ''500''))
        ''Hello everyone.'' (Some ''Xin chao.''),
      TLine (Stamp ''00'' ''02'' (Some ''500'')) (Stamp ''00'' ''05'' (Some ''100''))
        ''Welcome to the lesson.'' None]"

theorem transcribeAudio_wellformed_witness:
  "list_all2 spec_lineIs (splitOn (CHR 0x0A) demo_raw) (map Some demo_lines)
   \<and> transcribeAudio ''key'' (\<lambda>i. 1000 + int i) (Replied (Some demo_raw))
     = Inr [\<lparr>seg_ident = SegId 0 1000, seg_text = ''Hello everyone.'',
             seg_translation = ''Xin chao.'', seg_start = Fin 0, seg_end = Fin (5 / 2)\<rparr>,
            \<lparr>seg_ident = SegId 1 1001, seg_text = ''Welcome to the lesson.'',
             seg_translation = [], seg_start = Fin (5 / 2),
             seg_end = Fin (2871044762448691 / 562949953421312)\<rparr>]"
proof -
  have k: "''key'' \<noteq> []" by simp
  have wf: "list_all2 spec_lineIs (splitOn (CHR 0x0A) demo_raw) (map Some demo_lines)"
    unfolding demo_raw_def demo_lines_def by code_simp
  have t: "trim ''Hello everyone.'' = ''Hello everyone.''"
    "trim ''Welcome to the lesson.'' = ''Welcome to the lesson.''"
    "trim ''Xin chao.'' = ''Xin chao.''"
    by code_simp+
  have dv: "digitsVal ''00'' = 0" "digitsVal ''02'' = 2" "digitsVal ''05'' = 5"
    "digitsVal ''000'' = 0" "digitsVal ''500'' = 500" "digitsVal ''100'' = 100"
    by (simp_all add: digitsVal_def digitVal_def)
  have v: "spec_stampSeconds (Stamp ''00'' ''00'' (Some ''000'')) = Fin 0"
    "spec_stampSeconds (Stamp ''00'' ''02'' (Some ''500'')) = Fin (5 / 2)"
    "spec_stampSeconds (Stamp ''00'' ''05'' (Some ''100'')) = Fin (2871044762448691 / 562949953421312)"
    by (simp_all add: dv number_eval)
  from transcribeAudio_wellformed [OF k wf, of "\<lambda>i. 1000 + int i" demo_lines "[]" "[]" 0 0]
  have "transcribeAudio ''key'' (\<lambda>i. 1000 + int i) (Replied (Some demo_raw))
          = Inr (map (\<lambda>(i, l). spec_segment (1000 + int i) i l) (enumerate 0 demo_lines))"
    by blast
  also have "map (\<lambda>(i, l). spec_segment (1000 + int i) i l) (enumerate 0 demo_lines)
       = [\<lparr>seg_ident = SegId 0 1000, seg_text = ''Hello everyone.'',
             seg_translation = ''Xin chao.'', seg_start = Fin 0, seg_end = Fin (5 / 2)\<rparr>,
            \<lparr>seg_ident = SegId 1 1001, seg_text = ''Welcome to the lesson.'',
             seg_translation = [], seg_start = Fin (5 / 2),
             seg_end = Fin (2871044762448691 / 562949953421312)\<rparr>]"
    by (simp add: demo_lines_def t v del: spec_stampSeconds.simps)
  finally show ?thesis using wf by simp
qed

text \<open>
  The claim as first stated fails, in two ways. The line \<open>[00:00 -> 00:01]  | x\<close> matches
  the line pattern with an empty text (and translation \<open>x\<close>), and the guard on the text
  makes no segment of it. The line \<open>[0:00:01 -> 0:00:02] hours form\<close> has two timestamps
  in the format \<open>H:MM:SS\<close>, which \<open>parseTimestamp\<close> reads, yet the line pattern takes
  minutes and seconds only: the line does not match and is skipped.
\<close>

theorem transcribeAudio_wellformed_counterexample:
  "matchLine (trim ''[00:00 -> 00:01]  | x'')
       = Some \<lparr>g1 = ''00:00'', g2 = ''00:01'', g3 = [], g4 = Some ''x''\<rparr>
   \<and> splitOn (CHR 0x0A) ''[00:00 -> 00:01]  | x'' = [''[00:00 -> 00:01]  | x'']
   \<and> transcribeAudio ''key'' (\<lambda>i. 0) (Replied (Some ''[00:00 -> 00:01]  | x''))
       = Inl ''Failed to transcribe audio: Could not parse audio. The AI response was empty or malformed.''
   \<and> spec_format ''0:00:01'' \<and> spec_format ''0:00:02''
   \<and> parseTimestamp ''0:00:01'' = Fin 1 \<and> parseTimestamp ''0:00:02'' = Fin 2
   \<and> splitOn (CHR 0x0A) ''[0:00:01 -> 0:00:02] hours form'' = [''[0:00:01 -> 0:00:02] hours form'']
   \<and> matchLine (trim ''[0:00:01 -> 0:00:02] hours form'') = None
   \<and> transcribeAudio ''key'' (\<lambda>i. 0) (Replied (Some ''[0:00:01 -> 0:00:02] hours form''))
       = Inl ''Failed to transcribe audio: Could not parse audio. The AI response was empty or malformed.''"
proof -
  have l: "splitOn (CHR 0x0A) ''[00:00 -> 00:01]  | x'' = [''[00:00 -> 00:01]  | x'']"
    by code_simp
  have m: "matchLine (trim ''[00:00 -> 00:01]  | x'')
       = Some \<lparr>g1 = ''00:00'', g2 = ''00:01'', g3 = [], g4 = Some ''x''\<rparr>"
    by code_simp
  have t: "trim [] = []" by (simp add: trim_def)
  have p: "parseLine 0 0 ''[00:00 -> 00:01]  | x'' = None"
    using parseLine_empty_text [OF m] t by simp
  have f: "forEachLine (\<lambda>i. 0) 0 (splitOn (CHR 0x0A) ''[00:00 -> 00:01]  | x'') [] = []"
    unfolding l by (simp add: p)
  have r: "transcribeAudio ''key'' (\<lambda>i. 0) (Replied (Some ''[00:00 -> 00:01]  | x''))
       = Inl ''Failed to transcribe audio: Could not parse audio. The AI response was empty or malformed.''"
    by (simp add: transcribeAudio_def Let_def f parse_failure_message)
  have fm: "spec_format ''0:00:01''" "spec_format ''0:00:02''"
    by (simp_all add: format_eval)
  have pv: "parseTimestamp ''0:00:01'' = Fin 1" "parseTimestamp ''0:00:02'' = Fin 2"
    by (simp_all add: timestamp_eval)
  have l2: "splitOn (CHR 0x0A) ''[0:00:01 -> 0:00:02] hours form''
              = [''[0:00:01 -> 0:00:02] hours form'']"
    by code_simp
  have m2: "matchLine (trim ''[0:00:01 -> 0:00:02] hours form'') = None"
    by code_simp
  have p2: "parseLine 0 0 ''[0:00:01 -> 0:00:02] hours form'' = None"
    using m2 by (rule parseLine_None)
  have f2: "forEachLine (\<lambda>i. 0) 0 (splitOn (CHR 0x0A) ''[0:00:01 -> 0:00:02] hours form'') [] = []"
    unfolding l2 by (simp add: p2)
  have r2: "transcribeAudio ''key'' (\<lambda>i. 0) (Replied (Some ''[0:00:01 -> 0:00:02] hours form''))
       = Inl ''Failed to transcribe audio: Could not parse audio. The AI response was empty or malformed.''"
    by (simp add: transcribeAudio_def Let_def f2 parse_failure_message)
  from m l r fm pv l2 m2 r2 show ?thesis by (intro conjI)
qed

section \<open>Word lookup in the practice session (src/components/StepPractice.tsx)\<close>

text \<open>
  \<open>handleWordClick\<close> runs in two parts: up to the \<open>await\<close> it selects the word, raises the
  busy flag and issues the call \<open>lookupWord(cleanWord, currentSegment.text)\<close>; when the call
  resolves, the continuation stores the data and lowers the flag. The list \<open>lookups\<close> records
  every call issued, in order. A click throws when there is no current segment (\<open>None\<close>).
\<close>

definition isWordChar :: "char \<Rightarrow> bool" where
  "isWordChar c =
     (c \<in> set ''ABCDEFGHIJKLMNOPQRSTUVWXYZabcdefghijklmnopqrstuvwxyz0123456789_'')"

text \<open>\<open>word.replace(/[^\w\s']/g, "")\<close>.\<close>

definition cleanWordOf :: "string \<Rightarrow> string" where
  "cleanWordOf word = filter (\<lambda>c. isWordChar c \<or> isWhiteSpace c \<or> c = CHR 0x27) word"

type_synonym lookup_calls = "(string \<times> string) list"

definition handleWordClick :: "string \<Rightarrow> practice \<times> lookup_calls \<Rightarrow> (practice \<times> lookup_calls) option" where
  "handleWordClick word st =
     (let (p, lookups) = st; cleanWord = cleanWordOf word in
      if cleanWord = [] then Some (p, lookups)
      else if currentIndex p < length (props_segments p) then
        Some (p\<lparr>selectedWord := Some cleanWord, isLookingUp := True, lookupData := None\<rparr>,
              lookups @ [(cleanWord, seg_text (props_segments p ! currentIndex p))])
      else None)"

text \<open>
  The continuation after \<open>await lookupWord(...)\<close>, with the word and the sentence of the
  click that started it and the reply.
\<close>

definition lookupResolved :: "string \<Rightarrow> string \<Rightarrow> string \<Rightarrow> practice \<Rightarrow> practice" where
  "lookupResolved cleanWord sentence reply p =
     p\<lparr>lookupData := Some \<lparr>ld_word = cleanWord, ld_originalSentence = sentence,
                               ld_reply = reply\<rparr>,
       isLookingUp := False\<rparr>"

text \<open>The close button of the popover: \<open>setSelectedWord(null)\<close>.\<close>

definition closePopover :: "practice \<Rightarrow> practice" where
  "closePopover p = p\<lparr>selectedWord := None\<rparr>"

text \<open>\<open>confirmSaveWord\<close>; the second component is the words handed to \<open>saveVocabulary\<close>.\<close>

definition confirmSaveWord :: "practice \<times> string list \<Rightarrow> practice \<times> string list" where
  "confirmSaveWord st =
     (let (p, saved) = st in
      case lookupData p of
        None \<Rightarrow> (p, saved)
      | Some d \<Rightarrow>
          (p\<lparr>savedWords := insert (ld_word d) (savedWords p), selectedWord := None\<rparr>,
           saved @ [ld_word d]))"

text \<open>
  The words of the target sentence are shown, and can be tapped, while the feedback is
  \<open>Correct\<close>; the popover covers them while a word is selected.
\<close>

definition wordsTappable :: "practice \<Rightarrow> bool" where
  "wordsTappable p = (feedback_state p = Correct \<and> selectedWord p = None)"

definition demo_checked :: practice where
  "demo_checked = demo_practice 1\<lparr>userInput := ''the quick brown fox'', feedback_state := Correct\<rparr>"

section \<open>Properties of the word lookup\<close>

definition demo_looking :: practice where
  "demo_looking = demo_checked\<lparr>selectedWord := Some ''fox'', isLookingUp := True, lookupData := None\<rparr>"

text \<open>
  C9, as amended. Every tap on a word whose cleaned form is not empty issues a lookup call
  for it, whatever the busy flag, the stored lookup data and the set of saved words are:
  lookups are not cached and not deduplicated. A second tap on the same word, after the
  popover was closed with the first lookup still in flight or already resolved, issues a
  second call. What is kept per segment view is the set of saved words (with the selected
  word and the lookup data); it is cleared when the current index changes.
\<close>

theorem handleWordClick_always_calls:
  assumes "currentIndex p < length (props_segments p)" and "cleanWordOf word \<noteq> []"
  shows "(let call = (cleanWordOf word, seg_text (props_segments p ! currentIndex p));
              p1 = p\<lparr>selectedWord := Some (cleanWordOf word), isLookingUp := True,
                      lookupData := None\<rparr>
          in handleWordClick word (p, lookups) = Some (p1, lookups @ [call])
             \<and> handleWordClick word (closePopover p1, lookups @ [call])
                 = Some (p1, lookups @ [call, call])
             \<and> handleWordClick word
                   (closePopover (lookupResolved (fst call) (snd call) reply p1), lookups @ [call])
                 = Some (p1, lookups @ [call, call]))
       \<and> savedWords (setCurrentIndex n p) = {}
       \<and> lookupData (setCurrentIndex n p) = None
       \<and> selectedWord (setCurrentIndex n p) = None"
  using assms
  by (simp add: handleWordClick_def Let_def setCurrentIndex_def closePopover_def
      lookupResolved_def)

theorem handleWordClick_always_calls_witness:
  "handleWordClick ''fox.'' (demo_checked, []) = Some (demo_looking, [(''fox'', ''the quick brown fox'')])
   \<and> handleWordClick ''fox.''
         (closePopover (lookupResolved ''fox'' ''the quick brown fox'' ''con cao'' demo_looking),
          [(''fox'', ''the quick brown fox'')])
       = Some (demo_looking, [(''fox'', ''the quick brown fox''), (''fox'', ''the quick brown fox'')])"
proof -
  have i: "currentIndex demo_checked < length (props_segments demo_checked)"
    by (simp add: demo_checked_def demo_practice_def demo_article_def)
  have c: "cleanWordOf ''fox.'' = ''fox''"
    by (simp add: cleanWordOf_def isWordChar_def isWhiteSpace_def)
  then have ne: "cleanWordOf ''fox.'' \<noteq> []" by simp
  have t: "seg_text (props_segments demo_checked ! currentIndex demo_checked) = ''the quick brown fox''"
    by (simp add: demo_checked_def demo_practice_def demo_article_def demo_segment_def)
  from handleWordClick_always_calls [OF i ne, of "[]" "''con cao''" 0]
  show ?thesis by (simp add: Let_def c t demo_looking_def)
qed

text \<open>
  The claim as first stated fails: the words can be tapped; a tap on \<open>fox\<close> issues a lookup;
  with that lookup still in flight the popover is closed, the words can be tapped again, and
  a second tap on \<open>fox\<close> issues a second lookup for the same word.
\<close>

theorem handleWordClick_counterexample:
  "wordsTappable demo_checked
   \<and> handleWordClick ''fox'' (demo_checked, []) = Some (demo_looking, [(''fox'', ''the quick brown fox'')])
   \<and> isLookingUp demo_looking
   \<and> wordsTappable (closePopover demo_looking)
   \<and> handleWordClick ''fox'' (closePopover demo_looking, [(''fox'', ''the quick brown fox'')])
       = Some (demo_looking, [(''fox'', ''the quick brown fox''), (''fox'', ''the quick brown fox'')])"
  by (simp add: wordsTappable_def handleWordClick_def Let_def closePopover_def cleanWordOf_def
      isWordChar_def isWhiteSpace_def demo_looking_def demo_checked_def demo_practice_def
      demo_article_def demo_segment_def)

section \<open>Bounded playback in the mini-story session (StepMiniStory, in src/components/StepPractice.tsx)\<close>

text \<open>
  Audio positions are seconds (finite numbers). Each call of \<open>playAudio\<close> registers a fresh
  \<open>timeupdate\<close> listener on the one audio element; a listener is given by the end of its
  window and by what its \<open>onEnd\<close> callback does. A listener is removed only by itself, when
  it fires. A \<open>timeupdate\<close> event runs the registered listeners in registration order.
\<close>

datatype InteractionState = IDLE | PLAYING_QUESTION | WAITING_FOR_USER | PLAYING_ANSWER | IN_REVIEW

datatype on_end = NoCallback | ToWaitingForUser | ToReview

record watch =
  stop_at :: rat
  on_end_of :: on_end

record interaction =
  questionStart :: rat
  questionEnd :: rat
  answerStart :: rat
  answerEnd :: rat

record mini =
  ms_state :: InteractionState
  ms_currentItem :: interaction
  ms_hasAudio :: bool
  ms_currentTime :: rat
  ms_paused :: bool
  ms_watches :: "watch list"
  ms_hasRecognition :: bool
  ms_isListening :: bool
  ms_userTranscript :: string

definition startListening :: "mini \<Rightarrow> mini" where
  "startListening m =
     (if ms_hasRecognition m \<and> \<not> ms_isListening m
      then m\<lparr>ms_userTranscript := [], ms_isListening := True\<rparr>
      else m)"

definition stopListening :: "mini \<Rightarrow> mini" where
  "stopListening m =
     (if ms_hasRecognition m \<and> ms_isListening m then m\<lparr>ms_isListening := False\<rparr> else m)"

definition playAudio :: "rat \<Rightarrow> rat \<Rightarrow> on_end \<Rightarrow> mini \<Rightarrow> mini" where
  "playAudio start end onEnd m =
     (if \<not> ms_hasAudio m then m
      else m\<lparr>ms_currentTime := start,
             ms_watches := ms_watches m @ [\<lparr>stop_at = end, on_end_of = onEnd\<rparr>],
             ms_paused := False\<rparr>)"

definition runOnEnd :: "on_end \<Rightarrow> mini \<Rightarrow> mini" where
  "runOnEnd cb m =
     (case cb of
        NoCallback \<Rightarrow> m
      | ToWaitingForUser \<Rightarrow> startListening (m\<lparr>ms_state := WAITING_FOR_USER\<rparr>)
      | ToReview \<Rightarrow> m\<lparr>ms_state := IN_REVIEW\<rparr>)"

text \<open>The listener \<open>handleTimeUpdate\<close> that \<open>playAudio\<close> registers, for the watch \<open>w\<close>.\<close>

definition handleTimeUpdate :: "watch \<Rightarrow> mini \<Rightarrow> mini" where
  "handleTimeUpdate w m =
     (if ms_currentTime m \<ge> stop_at w then
        runOnEnd (on_end_of w) (m\<lparr>ms_paused := True, ms_watches := remove1 w (ms_watches m)\<rparr>)
      else m)"

text \<open>A \<open>timeupdate\<close> event with the audio at position \<open>t\<close>.\<close>

definition timeupdate :: "rat \<Rightarrow> mini \<Rightarrow> mini" where
  "timeupdate t m = foldl (\<lambda>acc w. handleTimeUpdate w acc) (m\<lparr>ms_currentTime := t\<rparr>) (ms_watches m)"

definition playAnswer :: "mini \<Rightarrow> mini" where
  "playAnswer m =
     (let m1 = (stopListening m)\<lparr>ms_state := PLAYING_ANSWER\<rparr>
      in playAudio (answerStart (ms_currentItem m1)) (answerEnd (ms_currentItem m1)) ToReview m1)"

definition replayQuestion :: "mini \<Rightarrow> mini" where
  "replayQuestion m =
     playAudio (questionStart (ms_currentItem m)) (questionEnd (ms_currentItem m)) NoCallback m"

definition replayAnswer :: "mini \<Rightarrow> mini" where
  "replayAnswer m =
     playAudio (answerStart (ms_currentItem m)) (answerEnd (ms_currentItem m)) NoCallback m"

text \<open>
  A session waiting for the user's answer: the question (seconds 0 to 2) has been played
  and its listener has fired and removed itself; the answer is at seconds 2 to 4.
\<close>

definition demo_waiting :: mini where
  "demo_waiting =
     \<lparr>ms_state = WAITING_FOR_USER,
      ms_currentItem = \<lparr>questionStart = 0, questionEnd = 2, answerStart = 2, answerEnd = 4\<rparr>,
      ms_hasAudio = True, ms_currentTime = 2, ms_paused = True, ms_watches = [],
      ms_hasRecognition = True, ms_isListening = True, ms_userTranscript = []\<rparr>"

section \<open>The stop-watch of the practice session (src/components/StepPractice.tsx)\<close>

text \<open>
  In the practice session the \<open>timeupdate\<close> listener is registered by an effect keyed on
  \<open>currentSegment\<close>: when the segment changes, the cleanup of the effect removes the
  listener of the previous segment and the effect registers one for the new segment. The
  listeners are given by the segments they stop at; \<open>runSegments\<close> follows a session from
  its current segment through the segments that come after it.
\<close>

definition watchEffect :: "segment \<Rightarrow> segment list \<Rightarrow> segment list" where
  "watchEffect seg listeners = listeners @ [seg]"

definition watchCleanup :: "segment \<Rightarrow> segment list \<Rightarrow> segment list" where
  "watchCleanup seg listeners = remove1 seg listeners"

fun runSegments :: "segment \<Rightarrow> segment list \<Rightarrow> segment list \<Rightarrow> segment list" where
  "runSegments cur [] listeners = listeners"
| "runSegments cur (nxt # rest) listeners =
     runSegments nxt rest (watchEffect nxt (watchCleanup cur listeners))"

lemma practice_one_watch: "runSegments cur nexts [cur] = [last (cur # nexts)]"
  by (induction nexts arbitrary: cur) (simp_all add: watchEffect_def watchCleanup_def)

section \<open>Two armed windows in the mini-story session\<close>

text \<open>
  C10 holds in the practice session, where one watch is armed at any time
  (\<open>practice_one_watch\<close>), and not for \<open>playAudio\<close>. From the waiting state the user
  replays the question (window 0 to 2) and, one second in, answers, which arms the answer
  window (2 to 4) and seeks to its start. Both watches are then registered; the next
  \<open>timeupdate\<close>, at position 2, fires the question's watch, which pauses the audio at the
  start of the answer, while the answer's watch stays armed and the session stays in
  \<open>PLAYING_ANSWER\<close>.
\<close>

theorem playAudio_two_watches:
  "ms_watches (replayQuestion demo_waiting) = [\<lparr>stop_at = 2, on_end_of = NoCallback\<rparr>]
   \<and> ms_watches (playAnswer (timeupdate 1 (replayQuestion demo_waiting)))
       = [\<lparr>stop_at = 2, on_end_of = NoCallback\<rparr>, \<lparr>stop_at = 4, on_end_of = ToReview\<rparr>]
   \<and> ms_paused (playAnswer (timeupdate 1 (replayQuestion demo_waiting))) = False
   \<and> timeupdate 2 (playAnswer (timeupdate 1 (replayQuestion demo_waiting)))
       = demo_waiting\<lparr>ms_state := PLAYING_ANSWER, ms_currentTime := 2, ms_paused := True,
           ms_watches := [\<lparr>stop_at = 4, on_end_of = ToReview\<rparr>], ms_isListening := False\<rparr>"
  by (simp add: replayQuestion_def playAnswer_def playAudio_def timeupdate_def
      handleTimeUpdate_def runOnEnd_def stopListening_def demo_waiting_def Let_def)

end
